theory Spec2Isabelle
  imports Main "HOL-Library.Sublist"
begin

section \<open>Data model of the relay\<close>

text \<open>
  The relay's core is \<^verbatim>\<open>pkg/grpc/broadcaster.go\<close> (the registry and the fan-out) and
  \<^verbatim>\<open>pkg/grpc/server.go\<close> (the two streaming loops). The embedding is sequential: the
  mutex of the Broadcaster makes \<^verbatim>\<open>Register\<close> and \<^verbatim>\<open>Unregister\<close> atomic with
  respect to each other and to \<^verbatim>\<open>Broadcast\<close>, and a run of the system is read as an
  interleaving of whole calls and of single iterations of the loops.

  A metric sample (\<^verbatim>\<open>*gen.Metrics\<close>) is opaque to this code: it is the type variable
  \<open>'m\<close> everywhere.
\<close>

text \<open>
  Go's \<^verbatim>\<open>error\<close> values as far as the code tells them apart: \<^verbatim>\<open>SendMetrics\<close>
  compares against \<^verbatim>\<open>io.EOF\<close>; every other error is passed through untouched.
\<close>

datatype error = EOF | TransportError string

text \<open>
  A buffered Go channel: its capacity and its queue, oldest element first. A send
  appends at the back, a receive takes the front. A channel of capacity 0 that nobody
  is receiving from, and the nil channel, are never ready for a send, exactly as
  \<open>cap = 0\<close> here. An unbuffered channel with a receiver parked on it, where Go
  hands the sample over without queueing it, has no counterpart in this record: what
  is proved about the outcome of a send is stated for channels of capacity at least
  1, as \<^verbatim>\<open>SubscribeMetrics\<close> makes them. The code never closes a channel.
\<close>

record 'm chan =
  cap :: nat
  buf :: "'m list"

text \<open>
  What the zap logger is asked to record. One constructor per log call of the source,
  with the fields the call passes:

  \<^item> \<open>SubscriberRegistered\<close>: Info, "subscriber registered" (Register)
  \<^item> \<open>SubscriberUnregistered\<close>: Info, "subscriber unregistered" (Unregister)
  \<^item> \<open>BroadcastedMessage\<close>: Debug, "broadcasted message" (Broadcast, send branch)
  \<^item> \<open>DroppingMetrics\<close>: Warn, "dropping metrics: subscriber channel full"
    (Broadcast, default branch)
  \<^item> \<open>StartedReceiving\<close>, \<open>AgentStreamClosed\<close>, \<open>FailedToReceive\<close>,
    \<open>ReceivedBatch\<close>: the four calls of SendMetrics
  \<^item> \<open>SubscriberConnected\<close>, \<open>SubscriberDisconnected\<close>, \<open>FailedToSend\<close>,
    \<open>SentMetrics\<close>, \<open>ContextCanceled\<close>: the five calls of SubscribeMetrics
\<close>

datatype 'm event =
    SubscriberRegistered string
  | SubscriberUnregistered string
  | BroadcastedMessage string
  | DroppingMetrics string
  | StartedReceiving
  | AgentStreamClosed
  | FailedToReceive error
  | ReceivedBatch 'm
  | SubscriberConnected string
  | SubscriberDisconnected string
  | FailedToSend string error
  | SentMetrics string
  | ContextCanceled string

text \<open>
  The Broadcaster struct together with the part of the Go heap it points into.
  Channels are references, so the map \<open>subscribers\<close> holds addresses and the channels
  themselves live in \<open>chans\<close>; two ids may hold the same address. \<open>nextc\<close> is the next
  address \<^verbatim>\<open>make(chan ...)\<close> hands out. \<open>logger\<close> is \<open>None\<close> for a nil
  \<^verbatim>\<open>*zap.Logger\<close> and otherwise holds everything the logger was asked to record,
  oldest first. The mutex has no counterpart in a sequential model.
\<close>

record 'm relay =
  chans :: "nat \<Rightarrow> 'm chan"
  nextc :: nat
  subscribers :: "string \<rightharpoonup> nat"
  logger :: "'m event list option"

definition events :: "'m relay \<Rightarrow> 'm event list" where
  "events w = (case logger w of None \<Rightarrow> [] | Some es \<Rightarrow> es)"

section \<open>broadcaster.go\<close>

text \<open>\<^verbatim>\<open>NewBroadcaster(logger)\<close>: an empty map and the logger it is given (nil allowed).\<close>

definition NewBroadcaster :: "'m event list option \<Rightarrow> 'm relay" where
  "NewBroadcaster lg =
     \<lparr>chans = (\<lambda>_. \<lparr>cap = 0, buf = []\<rparr>), nextc = 0, subscribers = Map.empty, logger = lg\<rparr>"

text \<open>The guarded log call of the Broadcaster: \<^verbatim>\<open>if b.logger != nil { b.logger.X(...) }\<close>.\<close>

definition blog :: "'m event \<Rightarrow> 'm relay \<Rightarrow> 'm relay" where
  "blog e w = (case logger w of None \<Rightarrow> w | Some es \<Rightarrow> w\<lparr>logger := Some (es @ [e])\<rparr>)"

text \<open>\<^verbatim>\<open>b.subscribers[id] = ch\<close>, then the log call.\<close>

definition Register :: "'m relay \<Rightarrow> string \<Rightarrow> nat \<Rightarrow> 'm relay" where
  "Register w sid ch = blog (SubscriberRegistered sid) (w\<lparr>subscribers := (subscribers w)(sid \<mapsto> ch)\<rparr>)"

text \<open>\<^verbatim>\<open>delete(b.subscribers, id)\<close>, then the log call. Deleting an absent key is a no-op in Go.\<close>

definition Unregister :: "'m relay \<Rightarrow> string \<Rightarrow> 'm relay" where
  "Unregister w sid = blog (SubscriberUnregistered sid) (w\<lparr>subscribers := (subscribers w)(sid := None)\<rparr>)"

text \<open>
  The body of the range loop of \<^verbatim>\<open>Broadcast\<close> for one key: the \<^verbatim>\<open>select\<close> with a
  \<^verbatim>\<open>default\<close> branch sends when the channel has room and otherwise falls through to
  \<^verbatim>\<open>default\<close>; it never waits. For a buffered channel the send is ready exactly
  when the queue is shorter than the capacity. A key that is not in the map is not
  visited by \<^verbatim>\<open>range\<close>, so it is skipped.
\<close>

definition Broadcast_step :: "'m \<Rightarrow> string \<Rightarrow> 'm relay \<Rightarrow> 'm relay" where
  "Broadcast_step msg sid w =
     (case subscribers w sid of
        None \<Rightarrow> w
      | Some ch \<Rightarrow>
          if length (buf (chans w ch)) < cap (chans w ch)
          then blog (BroadcastedMessage sid)
                 (w\<lparr>chans := (chans w)(ch := (chans w ch)\<lparr>buf := buf (chans w ch) @ [msg]\<rparr>)\<rparr>)
          else blog (DroppingMetrics sid) w)"

text \<open>
  \<^verbatim>\<open>Broadcast(msg)\<close>. Go leaves the iteration order of \<^verbatim>\<open>range\<close> over a map
  unspecified, so the order the runtime picks is an argument: \<open>order\<close> lists the keys
  in the order they are visited.
\<close>

definition Broadcast :: "'m relay \<Rightarrow> string list \<Rightarrow> 'm \<Rightarrow> 'm relay" where
  "Broadcast w order msg = fold (Broadcast_step msg) order w"

text \<open>An order \<^verbatim>\<open>range\<close> can pick: every key of the map, once.\<close>

definition range_order :: "'m relay \<Rightarrow> string list \<Rightarrow> bool" where
  "range_order w order \<longleftrightarrow> distinct order \<and> set order = dom (subscribers w)"

text \<open>
  No two ids share a channel. \<^verbatim>\<open>SubscribeMetrics\<close>, the only caller of
  \<^verbatim>\<open>Register\<close>, makes a new channel for every id.
\<close>

definition own_mailboxes :: "'m relay \<Rightarrow> bool" where
  "own_mailboxes w \<longleftrightarrow> inj_on (subscribers w) (dom (subscribers w))"

text \<open>A mailbox is full: a send would not go through.\<close>

definition full :: "'m chan \<Rightarrow> bool" where
  "full c \<longleftrightarrow> cap c \<le> length (buf c)"

text \<open>How often the logger was asked to record the drop warning for one id.\<close>

definition drops :: "string \<Rightarrow> 'm relay \<Rightarrow> nat" where
  "drops sid w = length (filter (\<lambda>e. e = DroppingMetrics sid) (events w))"

section \<open>server.go\<close>

text \<open>
  How a call of one of the two stream handlers stands after the events it has been
  given: it has returned a value, it has panicked, or it is still inside its loop,
  waiting for the next event.
\<close>

datatype 'r outcome = Return 'r | Panic | Pending

text \<open>
  The log calls of the server are not guarded: \<^verbatim>\<open>s.logger.Info(...)\<close> on a nil
  \<^verbatim>\<open>*zap.Logger\<close> dereferences the nil pointer and panics. \<open>None\<close> is that panic.
  \<^verbatim>\<open>NewMetricsServer\<close> hands the one logger to the server and to its Broadcaster, so
  both log into the field \<open>logger\<close>.
\<close>

definition slog :: "'m event \<Rightarrow> 'm relay \<Rightarrow> 'm relay option" where
  "slog e w = (case logger w of None \<Rightarrow> None | Some es \<Rightarrow> Some (w\<lparr>logger := Some (es @ [e])\<rparr>))"

definition NewMetricsServer :: "'m event list option \<Rightarrow> 'm relay" where
  "NewMetricsServer lg = NewBroadcaster lg"

subsection \<open>SendMetrics\<close>

text \<open>
  The loop of \<^verbatim>\<open>SendMetrics\<close>. The inbound stream is the list of what the successive
  calls of \<^verbatim>\<open>stream.Recv()\<close> return: \<open>Inr req\<close> for a sample (\<^verbatim>\<open>err == nil\<close>),
  \<open>Inl err\<close> for an error, \<^verbatim>\<open>io.EOF\<close> among them. \<open>ack\<close> is what
  \<^verbatim>\<open>stream.SendAndClose\<close> returns when it is called. \<open>rt k\<close> is the order in which
  the runtime ranges over the map in the \<open>k\<close>-th call of \<^verbatim>\<open>Broadcast\<close>. The result
  is the outcome, the relay, and the number of calls of \<^verbatim>\<open>SendAndClose\<close>. When the
  list is used up the loop is blocked in \<^verbatim>\<open>Recv\<close>: \<open>Pending\<close>.
\<close>

fun recv_loop ::
  "(nat \<Rightarrow> string list) \<Rightarrow> nat \<Rightarrow> error option \<Rightarrow> 'm relay \<Rightarrow> (error + 'm) list
     \<Rightarrow> error option outcome \<times> 'm relay \<times> nat" where
  "recv_loop rt k ack w [] = (Pending, w, 0)"
| "recv_loop rt k ack w (Inl err # rest) =
     (if err = EOF then
        (case slog AgentStreamClosed w of
           None \<Rightarrow> (Panic, w, 0)
         | Some w' \<Rightarrow> (Return ack, w', 1))
      else
        (case slog (FailedToReceive err) w of
           None \<Rightarrow> (Panic, w, 0)
         | Some w' \<Rightarrow> (Return (Some err), w', 0)))"
| "recv_loop rt k ack w (Inr req # rest) =
     (case slog (ReceivedBatch req) w of
        None \<Rightarrow> (Panic, w, 0)
      | Some w' \<Rightarrow> recv_loop rt (Suc k) ack (Broadcast w' (rt k) req) rest)"

definition SendMetrics ::
  "(nat \<Rightarrow> string list) \<Rightarrow> error option \<Rightarrow> 'm relay \<Rightarrow> (error + 'm) list
     \<Rightarrow> error option outcome \<times> 'm relay \<times> nat" where
  "SendMetrics rt ack w stream =
     (case slog StartedReceiving w of
        None \<Rightarrow> (Panic, w, 0)
      | Some w' \<Rightarrow> recv_loop rt 0 ack w' stream)"

text \<open>
  The relay after one call of \<^verbatim>\<open>Broadcast\<close> per sample of a list, in the order of the
  list, each after the log line for the batch: what the spec asks of the Ingestion
  Loop for the samples it receives.
\<close>

fun broadcast_each :: "(nat \<Rightarrow> string list) \<Rightarrow> nat \<Rightarrow> 'm relay \<Rightarrow> 'm list \<Rightarrow> 'm relay" where
  "broadcast_each rt k w [] = w"
| "broadcast_each rt k w (req # reqs) =
     broadcast_each rt (Suc k) (Broadcast (blog (ReceivedBatch req) w) (rt k) req) reqs"

subsection \<open>SubscribeMetrics\<close>

text \<open>\<^verbatim>\<open>make(chan *gen.Metrics, n)\<close>: a new, empty channel at the address \<open>nextc w\<close>.\<close>

definition make_chan :: "nat \<Rightarrow> 'm relay \<Rightarrow> 'm relay" where
  "make_chan n w = w\<lparr>chans := (chans w)(nextc w := \<lparr>cap = n, buf = []\<rparr>), nextc := Suc (nextc w)\<rparr>"

text \<open>
  What one Subscription Loop holds besides the relay: whether the context of its
  stream is done, and the samples \<^verbatim>\<open>stream.Send\<close> has accepted, oldest first (what the
  subscriber has observed).
\<close>

record 'm sub_state =
  world :: "'m relay"
  cancelled :: bool
  sent :: "'m list"

text \<open>
  What happens around one Subscription Loop, one event at a time:

  \<^item> \<open>Env_Broadcast order msg\<close>: an Ingestion Loop calls \<^verbatim>\<open>Broadcast(msg)\<close>, the
    runtime ranging over the map in \<open>order\<close>;
  \<^item> \<open>Ctx_Cancel\<close>: the context of the stream is cancelled;
  \<^item> \<open>Select_Recv r\<close>: the \<^verbatim>\<open>select\<close> of the loop runs the case
    \<^verbatim>\<open>msg := <-ch\<close>, and \<^verbatim>\<open>stream.Send(msg)\<close> returns \<open>r\<close>;
  \<^item> \<open>Select_Done\<close>: the \<^verbatim>\<open>select\<close> runs the case \<^verbatim>\<open><-stream.Context().Done()\<close>.

  When both cases are ready Go picks either, so the choice is the event's. A case
  that is not ready cannot run: the loop stays blocked and the event passes.
\<close>

datatype 'm step =
    Env_Broadcast "string list" 'm
  | Ctx_Cancel
  | Select_Recv "error option"
  | Select_Done

text \<open>
  The deferred function of \<^verbatim>\<open>SubscribeMetrics\<close>: the log line, then
  \<^verbatim>\<open>Unregister(id)\<close>.
\<close>

definition deferred :: "string \<Rightarrow> 'm relay \<Rightarrow> 'm relay option" where
  "deferred sid w =
     (case slog (SubscriberDisconnected sid) w of
        None \<Rightarrow> None
      | Some w' \<Rightarrow> Some (Unregister w' sid))"

text \<open>\<^verbatim>\<open>return r\<close> inside the loop: the deferred function runs, then the call returns.\<close>

definition leave :: "string \<Rightarrow> error option \<Rightarrow> 'm sub_state \<Rightarrow> error option outcome \<times> 'm sub_state" where
  "leave sid r st =
     (case deferred sid (world st) of
        None \<Rightarrow> (Panic, st)
      | Some w' \<Rightarrow> (Return r, st\<lparr>world := w'\<rparr>))"

text \<open>
  The loop of \<^verbatim>\<open>SubscribeMetrics\<close> for the id \<open>sid\<close> and the channel at \<open>ch\<close>. A
  log call on a nil logger panics; the deferred function then runs and panics at its
  own log call, before \<^verbatim>\<open>Unregister\<close>, so the relay is as the panic found it.
\<close>

fun stream_loop ::
  "string \<Rightarrow> nat \<Rightarrow> 'm sub_state \<Rightarrow> 'm step list \<Rightarrow> error option outcome \<times> 'm sub_state" where
  "stream_loop sid ch st [] = (Pending, st)"
| "stream_loop sid ch st (Env_Broadcast order msg # es) =
     stream_loop sid ch (st\<lparr>world := Broadcast (world st) order msg\<rparr>) es"
| "stream_loop sid ch st (Ctx_Cancel # es) =
     stream_loop sid ch (st\<lparr>cancelled := True\<rparr>) es"
| "stream_loop sid ch st (Select_Recv r # es) =
     (case buf (chans (world st) ch) of
        [] \<Rightarrow> stream_loop sid ch st es
      | msg # q \<Rightarrow>
          let w = (world st)\<lparr>chans := (chans (world st))(ch := (chans (world st) ch)\<lparr>buf := q\<rparr>)\<rparr>
          in (case r of
                Some err \<Rightarrow>
                  (case slog (FailedToSend sid err) w of
                     None \<Rightarrow> (Panic, st\<lparr>world := w\<rparr>)
                   | Some w' \<Rightarrow> leave sid (Some err) (st\<lparr>world := w'\<rparr>))
              | None \<Rightarrow>
                  (case slog (SentMetrics sid) w of
                     None \<Rightarrow> (Panic, st\<lparr>world := w, sent := sent st @ [msg]\<rparr>)
                   | Some w' \<Rightarrow>
                       stream_loop sid ch (st\<lparr>world := w', sent := sent st @ [msg]\<rparr>) es)))"
| "stream_loop sid ch st (Select_Done # es) =
     (if cancelled st then
        (case slog (ContextCanceled sid) (world st) of
           None \<Rightarrow> (Panic, st)
         | Some w' \<Rightarrow> leave sid None (st\<lparr>world := w'\<rparr>))
      else stream_loop sid ch st es)"

text \<open>
  \<^verbatim>\<open>SubscribeMetrics\<close>. \<open>sid\<close> is the string \<^verbatim>\<open>uuid.New().String()\<close> returns; the
  channel is the one \<^verbatim>\<open>make(chan *gen.Metrics, 100)\<close> returns, at the address
  \<open>nextc w\<close>.
\<close>

definition SubscribeMetrics ::
  "'m relay \<Rightarrow> string \<Rightarrow> 'm step list \<Rightarrow> error option outcome \<times> 'm sub_state" where
  "SubscribeMetrics w sid script =
     (case slog (SubscriberConnected sid) (make_chan 100 w) of
        None \<Rightarrow> (Panic, \<lparr>world = make_chan 100 w, cancelled = False, sent = []\<rparr>)
      | Some w' \<Rightarrow>
          stream_loop sid (nextc w)
            \<lparr>world = Register w' sid (nextc w), cancelled = False, sent = []\<rparr> script)"

text \<open>The samples the Ingestion Loops broadcast during a run, in the order of the calls.\<close>

fun broadcasts :: "'m step list \<Rightarrow> 'm list" where
  "broadcasts [] = []"
| "broadcasts (Env_Broadcast order msg # es) = msg # broadcasts es"
| "broadcasts (e # es) = broadcasts es"

text \<open>Every \<^verbatim>\<open>range\<close> of a run visits no key twice.\<close>

fun orders_distinct :: "'m step list \<Rightarrow> bool" where
  "orders_distinct [] \<longleftrightarrow> True"
| "orders_distinct (Env_Broadcast order msg # es) \<longleftrightarrow> distinct order \<and> orders_distinct es"
| "orders_distinct (e # es) \<longleftrightarrow> orders_distinct es"

text \<open>
  Every address in the map has been handed out by \<^verbatim>\<open>make\<close>: the next new channel is
  in nobody's entry.
\<close>

definition allocated :: "'m relay \<Rightarrow> bool" where
  "allocated w \<longleftrightarrow> (\<forall>a \<in> ran (subscribers w). a < nextc w)"

text \<open>A run of \<^verbatim>\<open>Register\<close> calls, one per pair of an id and a channel.\<close>

fun Register_all :: "'m relay \<Rightarrow> (string \<times> nat) list \<Rightarrow> 'm relay" where
  "Register_all w [] = w"
| "Register_all w ((sid, ch) # rest) = Register_all (Register w sid ch) rest"

text \<open>How often the logger was asked to record the line of \<^verbatim>\<open>Unregister\<close> for one id.\<close>

definition unregistered :: "string \<Rightarrow> 'm relay \<Rightarrow> nat" where
  "unregistered sid w = length (filter (\<lambda>e. e = SubscriberUnregistered sid) (events w))"

text \<open>
  The state in which a call of \<^verbatim>\<open>SubscribeMetrics\<close> on a server with a logger enters
  its loop: the channel made, the first log line written, the id registered.
\<close>

definition entered :: "'m relay \<Rightarrow> string \<Rightarrow> 'm sub_state" where
  "entered w sid =
     \<lparr>world = Register (blog (SubscriberConnected sid) (make_chan 100 w)) sid (nextc w),
      cancelled = False, sent = []\<rparr>"

text \<open>
  The spec's exit events of the Subscription Loop and the value each asks the loop to
  terminate with: cancellation observed asks for success (\<open>None\<close>, Go's nil error), a
  dequeued sample whose send fails with \<open>err\<close> asks for that failure. \<open>None\<close> for an
  event that does not end the loop in this state.
\<close>

fun exit_event :: "nat \<Rightarrow> 'm sub_state \<Rightarrow> 'm step \<Rightarrow> error option option" where
  "exit_event ch st Select_Done = (if cancelled st then Some None else None)"
| "exit_event ch st (Select_Recv (Some err)) =
     (if buf (chans (world st) ch) = [] then None else Some (Some err))"
| "exit_event ch st ev = None"

section \<open>Example states\<close>

text \<open>
  Two subscribers with mailboxes of capacity 1: \<open>''a''\<close> registered first and already
  holding the sample 7, \<open>''b''\<close> registered afterwards with an empty mailbox. The
  argument is the logger the Broadcaster was built with.
\<close>

definition slow_and_fast :: "nat event list option \<Rightarrow> nat relay" where
  "slow_and_fast lg =
     Register (make_chan 1 (Broadcast (Register (make_chan 1 (NewBroadcaster lg)) ''a'' 0) [''a''] 7)) ''b'' 1"

text \<open>One subscriber \<open>''a''\<close> with an empty mailbox of capacity 2.\<close>

definition capacity_two :: "nat event list option \<Rightarrow> nat relay" where
  "capacity_two lg = Register (make_chan 2 (NewBroadcaster lg)) ''a'' 0"

text \<open>A server built with a logger, before any subscriber has connected.\<close>

definition fresh_server :: "nat relay" where
  "fresh_server = NewMetricsServer (Some [])"

text \<open>The same server with one subscriber \<open>''a''\<close>, its mailbox of capacity 100 empty.\<close>

definition one_listener :: "nat relay" where
  "one_listener = Register (make_chan 100 (NewMetricsServer (Some []))) ''a'' 0"

section \<open>Broadcast changes queue contents only\<close>

lemma blog_fields [simp]:
  "subscribers (blog e w) = subscribers w"
  "chans (blog e w) = chans w"
  "nextc (blog e w) = nextc w"
  by (simp_all add: blog_def split: option.splits)

lemma blog_logger_None [simp]: "logger (blog e w) = None \<longleftrightarrow> logger w = None"
  by (simp add: blog_def split: option.splits)

lemma events_blog: "events (blog e w) = (if logger w = None then [] else events w @ [e])"
  by (auto simp: blog_def events_def split: option.splits)

lemma Broadcast_step_subscribers [simp]: "subscribers (Broadcast_step msg sid w) = subscribers w"
  by (simp add: Broadcast_step_def split: option.splits)

lemma Broadcast_step_nextc [simp]: "nextc (Broadcast_step msg sid w) = nextc w"
  by (simp add: Broadcast_step_def split: option.splits)

lemma Broadcast_step_cap [simp]: "cap (chans (Broadcast_step msg sid w) a) = cap (chans w a)"
  by (simp add: Broadcast_step_def split: option.splits)

lemma Broadcast_step_logger_None [simp]:
  "logger (Broadcast_step msg sid w) = None \<longleftrightarrow> logger w = None"
  by (simp add: Broadcast_step_def split: option.splits)

lemma Broadcast_subscribers [simp]: "subscribers (Broadcast w order msg) = subscribers w"
  unfolding Broadcast_def by (induction order arbitrary: w) simp_all

lemma Broadcast_nextc [simp]: "nextc (Broadcast w order msg) = nextc w"
  unfolding Broadcast_def by (induction order arbitrary: w) simp_all

lemma Broadcast_cap [simp]: "cap (chans (Broadcast w order msg) a) = cap (chans w a)"
  unfolding Broadcast_def by (induction order arbitrary: w) simp_all

lemma Broadcast_logger_None [simp]: "logger (Broadcast w order msg) = None \<longleftrightarrow> logger w = None"
  unfolding Broadcast_def by (induction order arbitrary: w) simp_all

lemma Broadcast_Nil [simp]: "Broadcast w [] msg = w"
  by (simp add: Broadcast_def)

lemma Broadcast_Cons: "Broadcast w (sid # order) msg = Broadcast (Broadcast_step msg sid w) order msg"
  by (simp add: Broadcast_def)

lemma Broadcast_append: "Broadcast w (xs @ ys) msg = Broadcast (Broadcast w xs msg) ys msg"
  by (simp add: Broadcast_def)

lemma Broadcast_step_untouched:
  "subscribers w s \<noteq> Some a \<Longrightarrow> chans (Broadcast_step msg s w) a = chans w a"
  by (auto simp: Broadcast_step_def split: option.splits)

lemma Broadcast_untouched:
  "\<forall>s \<in> set order. subscribers w s \<noteq> Some a \<Longrightarrow> chans (Broadcast w order msg) a = chans w a"
  by (induction order arbitrary: w) (simp_all add: Broadcast_Cons Broadcast_step_untouched)

lemma events_Broadcast_step:
  "events (Broadcast_step msg s w) =
     (case subscribers w s of None \<Rightarrow> events w
      | Some a \<Rightarrow> if logger w = None then [] else
          events w @ [if length (buf (chans w a)) < cap (chans w a) then BroadcastedMessage s else DroppingMetrics s])"
  by (auto simp: Broadcast_step_def events_blog split: option.splits) (simp_all add: events_def)

lemma drops_Broadcast_step_other:
  "s \<noteq> sid \<Longrightarrow> drops sid (Broadcast_step msg s w) = drops sid w"
  by (auto simp: drops_def events_Broadcast_step  split: option.splits) (simp_all add: events_def)

lemma drops_Broadcast_other:
  "sid \<notin> set order \<Longrightarrow> drops sid (Broadcast w order msg) = drops sid w"
  by (induction order arbitrary: w) (auto simp: Broadcast_Cons drops_Broadcast_step_other)

lemma own_mailboxesD:
  "own_mailboxes w \<Longrightarrow> subscribers w s = Some a \<Longrightarrow> subscribers w s' = Some a \<Longrightarrow> s = s'"
  by (auto simp: own_mailboxes_def inj_on_def dom_def)

lemma Broadcast_at:
  assumes d: "distinct order" and m: "sid \<in> set order" and o: "own_mailboxes w"
    and r: "subscribers w sid = Some ch"
  shows "chans (Broadcast w order msg) ch = chans (Broadcast_step msg sid w) ch"
    and "drops sid (Broadcast w order msg) = drops sid (Broadcast_step msg sid w)"
proof -
  from m obtain xs ys where split: "order = xs @ sid # ys"
    by (auto simp: in_set_conv_decomp)
  with d have nx: "sid \<notin> set xs" and ny: "sid \<notin> set ys" by auto
  define w1 where "w1 = Broadcast w xs msg"
  define w2 where "w2 = Broadcast_step msg sid w1"
  have others: "subscribers w s \<noteq> Some ch" if "s \<noteq> sid" for s
    using own_mailboxesD [OF o _ r, of s] that by auto
  have ox: "\<forall>s \<in> set xs. subscribers w s \<noteq> Some ch"
  proof
    fix s assume "s \<in> set xs"
    with nx have "s \<noteq> sid" by auto
    then show "subscribers w s \<noteq> Some ch" by (rule others)
  qed
  have s2: "subscribers w2 = subscribers w" by (simp add: w2_def w1_def)
  have oy: "\<forall>s \<in> set ys. subscribers w2 s \<noteq> Some ch"
    unfolding s2
  proof
    fix s assume "s \<in> set ys"
    with ny have "s \<noteq> sid" by auto
    then show "subscribers w s \<noteq> Some ch" by (rule others)
  qed
  have c1: "chans w1 ch = chans w ch"
    unfolding w1_def using ox by (rule Broadcast_untouched)
  have l1: "logger w1 = None \<longleftrightarrow> logger w = None" by (simp add: w1_def)
  have s1: "subscribers w1 = subscribers w" by (simp add: w1_def)
  have d1: "drops sid w1 = drops sid w"
    unfolding w1_def using nx by (rule drops_Broadcast_other)
  have whole: "Broadcast w order msg = Broadcast w2 ys msg"
    by (simp add: split Broadcast_append Broadcast_Cons w1_def w2_def)
  have "chans (Broadcast w order msg) ch = chans w2 ch"
    unfolding whole using oy by (rule Broadcast_untouched)
  also have "\<dots> = chans (Broadcast_step msg sid w) ch"
    using c1 s1 r by (simp add: Broadcast_step_def w2_def)
  finally show "chans (Broadcast w order msg) ch = chans (Broadcast_step msg sid w) ch" .
  have "drops sid (Broadcast w order msg) = drops sid w2"
    unfolding whole using ny by (rule drops_Broadcast_other)
  also have "\<dots> = drops sid (Broadcast_step msg sid w)"
    using c1 s1 r d1 l1 by (auto simp: drops_def events_Broadcast_step w2_def)
  finally show "drops sid (Broadcast w order msg) = drops sid (Broadcast_step msg sid w)" .
qed

section \<open>What one Broadcast does to one subscriber\<close>

lemma Broadcast_step_buf:
  "\<exists>n. buf (chans (Broadcast_step msg s w) a) = buf (chans w a) @ replicate n msg"
proof (cases "subscribers w s")
  case None
  then have "buf (chans (Broadcast_step msg s w) a) = buf (chans w a) @ replicate 0 msg"
    by (simp add: Broadcast_step_def)
  then show ?thesis by blast
next
  case (Some ch)
  show ?thesis
  proof (cases "a = ch \<and> length (buf (chans w ch)) < cap (chans w ch)")
    case True
    with Some have "buf (chans (Broadcast_step msg s w) a) = buf (chans w a) @ replicate 1 msg"
      by (simp add: Broadcast_step_def)
    then show ?thesis by blast
  next
    case False
    with Some have "buf (chans (Broadcast_step msg s w) a) = buf (chans w a) @ replicate 0 msg"
      by (auto simp: Broadcast_step_def)
    then show ?thesis by blast
  qed
qed

lemma Broadcast_buf:
  "\<exists>n. buf (chans (Broadcast w order msg) a) = buf (chans w a) @ replicate n msg"
proof (induction order arbitrary: w)
  case Nil
  have "buf (chans (Broadcast w [] msg) a) = buf (chans w a) @ replicate 0 msg" by simp
  then show ?case by blast
next
  case (Cons s order)
  obtain n where n: "buf (chans (Broadcast_step msg s w) a) = buf (chans w a) @ replicate n msg"
    using Broadcast_step_buf [of msg s w a] by blast
  obtain k where k: "buf (chans (Broadcast (Broadcast_step msg s w) order msg) a)
      = buf (chans (Broadcast_step msg s w) a) @ replicate k msg"
    using Cons.IH [of "Broadcast_step msg s w"] by blast
  have "buf (chans (Broadcast w (s # order) msg) a) = buf (chans w a) @ replicate (n + k) msg"
    by (simp add: Broadcast_Cons k n replicate_add)
  then show ?case by blast
qed

lemma events_chans_update [simp]: "events (w\<lparr>chans := f\<rparr>) = events w"
  by (simp add: events_def)

lemma Broadcast_step_full:
  "subscribers w sid = Some ch \<Longrightarrow> full (chans w ch) \<Longrightarrow>
     chans (Broadcast_step msg sid w) ch = chans w ch
     \<and> drops sid (Broadcast_step msg sid w) = drops sid w + (if logger w = None then 0 else 1)"
  by (auto simp: Broadcast_step_def full_def drops_def events_blog) (simp add: events_def)

lemma Broadcast_step_room:
  "subscribers w sid = Some ch \<Longrightarrow> \<not> full (chans w ch) \<Longrightarrow>
     chans (Broadcast_step msg sid w) ch = (chans w ch)\<lparr>buf := buf (chans w ch) @ [msg]\<rparr>
     \<and> drops sid (Broadcast_step msg sid w) = drops sid w"
  by (auto simp: Broadcast_step_def full_def drops_def events_blog) (simp add: events_def)

lemma Broadcast_outcome:
  assumes "range_order w order" and "own_mailboxes w" and "subscribers w sid = Some ch"
  shows "(if full (chans w ch)
          then chans (Broadcast w order msg) ch = chans w ch
               \<and> drops sid (Broadcast w order msg) = drops sid w + (if logger w = None then 0 else 1)
          else chans (Broadcast w order msg) ch = (chans w ch)\<lparr>buf := buf (chans w ch) @ [msg]\<rparr>
               \<and> drops sid (Broadcast w order msg) = drops sid w)"
proof -
  from assms have d: "distinct order" and m: "sid \<in> set order"
    by (auto simp: range_order_def)
  note at = Broadcast_at [OF d m assms(2,3), of msg]
  show ?thesis
    using at Broadcast_step_full [OF assms(3), of msg] Broadcast_step_room [OF assms(3), of msg]
    by simp
qed

lemma range_order_Broadcast [simp]: "range_order (Broadcast w order msg) order' = range_order w order'"
  by (simp add: range_order_def)

lemma own_mailboxes_Broadcast [simp]: "own_mailboxes (Broadcast w order msg) = own_mailboxes w"
  by (simp add: own_mailboxes_def)

section \<open>Register and Unregister\<close>

lemma Register_subscribers [simp]: "subscribers (Register w sid ch) = (subscribers w)(sid \<mapsto> ch)"
  by (simp add: Register_def)

lemma Register_chans [simp]: "chans (Register w sid ch) = chans w"
  by (simp add: Register_def)

lemma Unregister_subscribers [simp]: "subscribers (Unregister w sid) = (subscribers w)(sid := None)"
  by (simp add: Unregister_def)

lemma Unregister_chans [simp]: "chans (Unregister w sid) = chans w"
  by (simp add: Unregister_def)

lemma Unregister_nextc [simp]: "nextc (Unregister w sid) = nextc w"
  by (simp add: Unregister_def)

lemma Register_all_other:
  "s \<notin> fst ` set ps \<Longrightarrow> subscribers (Register_all w ps) s = subscribers w s"
  by (induction w ps rule: Register_all.induct) auto

lemma Register_all_entry:
  "distinct (map fst ps) \<Longrightarrow> (s, c) \<in> set ps \<Longrightarrow> subscribers (Register_all w ps) s = Some c"
proof (induction w ps rule: Register_all.induct)
  case (1 w)
  then show ?case by simp
next
  case (2 w sid ch rest)
  show ?case
  proof (cases "(s, c) = (sid, ch)")
    case True
    with 2 have "s \<notin> fst ` set rest" by auto
    then show ?thesis using True by (simp add: Register_all_other)
  next
    case False
    with 2 show ?thesis by auto
  qed
qed

lemma Register_all_dom:
  "dom (subscribers (Register_all w ps)) = dom (subscribers w) \<union> fst ` set ps"
  by (induction w ps rule: Register_all.induct) auto

lemma subscribers_update_same: "subscribers r = m \<Longrightarrow> r\<lparr>subscribers := m\<rparr> = r"
  by (cases r) simp

lemma Unregister_absent: "subscribers w sid = None \<Longrightarrow> Unregister w sid = blog (SubscriberUnregistered sid) w"
proof -
  assume "subscribers w sid = None"
  then have "(subscribers w)(sid := None) = subscribers w" by (simp add: fun_upd_idem)
  then have "w\<lparr>subscribers := (subscribers w)(sid := None)\<rparr> = w"
    by (simp add: subscribers_update_same)
  then show ?thesis by (simp add: Unregister_def)
qed

section \<open>The example states, evaluated\<close>

lemmas run_defs = NewBroadcaster_def make_chan_def Register_def blog_def Broadcast_def
  Broadcast_step_def events_def drops_def full_def range_order_def own_mailboxes_def Unregister_def

lemma slow_and_fast_facts:
  "range_order (slow_and_fast lg) [''b'', ''a'']"
  "own_mailboxes (slow_and_fast lg)"
  "subscribers (slow_and_fast lg) ''a'' = Some 0"
  "subscribers (slow_and_fast lg) ''b'' = Some (Suc 0)"
  "chans (slow_and_fast lg) 0 = \<lparr>cap = Suc 0, buf = [7]\<rparr>"
  "chans (slow_and_fast lg) (Suc 0) = \<lparr>cap = Suc 0, buf = []\<rparr>"
  by (auto simp: slow_and_fast_def run_defs inj_on_def split: option.splits)

lemma capacity_two_facts:
  "range_order (capacity_two lg) [''a'']"
  "own_mailboxes (capacity_two lg)"
  "subscribers (capacity_two lg) ''a'' = Some 0"
  "chans (capacity_two lg) 0 = \<lparr>cap = 2, buf = []\<rparr>"
  "logger (capacity_two lg) = None \<longleftrightarrow> lg = None"
  by (auto simp: capacity_two_def run_defs inj_on_def split: option.splits)

section \<open>The claims about the Broadcaster\<close>

text \<open>
  Claim C1, as the code has it. \<^verbatim>\<open>Broadcast\<close> is a total function of the relay, the
  order of the range and the sample: the \<^verbatim>\<open>select\<close> has a \<^verbatim>\<open>default\<close> branch, so
  no send waits. In a relay where every id has a mailbox of its own, each registered
  subscriber with a buffered mailbox (capacity at least 1) that has room gets the
  sample appended to its queue and no drop warning; each such subscriber whose
  mailbox is full keeps its queue as it was, and the drop warning for its id is
  logged once when the Broadcaster has a logger, and not at all when the logger is
  nil. The outcome for one subscriber depends on its own mailbox only.
\<close>

theorem Broadcast_delivers_or_drops:
  assumes "range_order w order" and "own_mailboxes w" and "subscribers w sid = Some ch"
    and "0 < cap (chans w ch)"
  shows "(if full (chans w ch)
          then chans (Broadcast w order msg) ch = chans w ch
               \<and> drops sid (Broadcast w order msg) = drops sid w + (if logger w = None then 0 else 1)
          else chans (Broadcast w order msg) ch = (chans w ch)\<lparr>buf := buf (chans w ch) @ [msg]\<rparr>
               \<and> drops sid (Broadcast w order msg) = drops sid w)"
  using assms(1-3) by (rule Broadcast_outcome)

theorem Broadcast_delivers_or_drops_witness:
  "range_order (slow_and_fast (Some [])) [''b'', ''a'']
   \<and> own_mailboxes (slow_and_fast (Some []))
   \<and> subscribers (slow_and_fast (Some [])) ''a'' = Some 0
   \<and> subscribers (slow_and_fast (Some [])) ''b'' = Some 1
   \<and> 0 < cap (chans (slow_and_fast (Some [])) 0)
   \<and> 0 < cap (chans (slow_and_fast (Some [])) 1)
   \<and> buf (chans (Broadcast (slow_and_fast (Some [])) [''b'', ''a''] 9) 0) = [7]
   \<and> drops ''a'' (Broadcast (slow_and_fast (Some [])) [''b'', ''a''] 9) = 1
   \<and> buf (chans (Broadcast (slow_and_fast (Some [])) [''b'', ''a''] 9) 1) = [9]
   \<and> drops ''b'' (Broadcast (slow_and_fast (Some [])) [''b'', ''a''] 9) = 0"
proof -
  let ?w = "slow_and_fast (Some [])"
  have ld: "logger ?w \<noteq> None" "drops ''a'' ?w = 0" "drops ''b'' ?w = 0"
    by (simp_all add: slow_and_fast_def run_defs)
  have ca: "0 < cap (chans ?w 0)" and cb: "0 < cap (chans ?w (Suc 0))"
    by (simp_all add: slow_and_fast_facts)
  have a: "buf (chans (Broadcast ?w [''b'', ''a''] 9) 0) = [7]
      \<and> drops ''a'' (Broadcast ?w [''b'', ''a''] 9) = 1"
    using Broadcast_delivers_or_drops [OF slow_and_fast_facts(1,2,3) ca, of 9] ld
    by (simp add: slow_and_fast_facts full_def)
  have b: "buf (chans (Broadcast ?w [''b'', ''a''] 9) 1) = [9]
      \<and> drops ''b'' (Broadcast ?w [''b'', ''a''] 9) = 0"
    using Broadcast_delivers_or_drops [OF slow_and_fast_facts(1,2,4) cb, of 9] ld
    by (simp add: slow_and_fast_facts full_def)
  show ?thesis using a b ca cb slow_and_fast_facts [of "Some []"] by simp
qed

text \<open>
  Claim C1 as stated fails where the Broadcaster was built with a nil logger, which
  \<^verbatim>\<open>NewBroadcaster\<close> allows: the mailbox of \<open>''a''\<close>, a buffered channel of capacity
  1, is full, the sample 9 is dropped for it, and nothing is recorded.
\<close>

theorem Broadcast_drop_unrecorded:
  "range_order (slow_and_fast None) [''b'', ''a'']
   \<and> own_mailboxes (slow_and_fast None)
   \<and> subscribers (slow_and_fast None) ''a'' = Some 0
   \<and> cap (chans (slow_and_fast None) 0) = 1
   \<and> full (chans (slow_and_fast None) 0)
   \<and> buf (chans (Broadcast (slow_and_fast None) [''b'', ''a''] 9) 0) = [7]
   \<and> events (Broadcast (slow_and_fast None) [''b'', ''a''] 9) = []
   \<and> drops ''a'' (Broadcast (slow_and_fast None) [''b'', ''a''] 9) = 0"
  by (simp add: slow_and_fast_facts full_def) (simp add: slow_and_fast_def run_defs)

text \<open>
  Claim C5, as the code has it. A subscriber with a mailbox of its own, of capacity 2
  and empty, is sent \<open>m1\<close>, \<open>m2\<close>, \<open>m3\<close> by three calls of \<^verbatim>\<open>Broadcast\<close> and does not
  receive in between: its queue is then exactly \<open>[m1, m2]\<close>, and the drop warning for
  its id has been logged exactly once more when the Broadcaster has a logger, and not
  at all when the logger is nil.
\<close>

theorem drop_newest_on_full:
  assumes o1: "range_order w o1" and o2: "range_order w o2" and o3: "range_order w o3"
    and own: "own_mailboxes w" and reg: "subscribers w sid = Some ch"
    and fresh: "chans w ch = \<lparr>cap = 2, buf = []\<rparr>"
  shows "buf (chans (Broadcast (Broadcast (Broadcast w o1 m1) o2 m2) o3 m3) ch) = [m1, m2]
       \<and> drops sid (Broadcast (Broadcast (Broadcast w o1 m1) o2 m2) o3 m3)
           = drops sid w + (if logger w = None then 0 else 1)"
proof -
  define w1 where "w1 = Broadcast w o1 m1"
  define w2 where "w2 = Broadcast w1 o2 m2"
  define w3 where "w3 = Broadcast w2 o3 m3"
  have r1: "subscribers w1 sid = Some ch" and r2: "subscribers w2 sid = Some ch"
    using reg by (simp_all add: w1_def w2_def)
  have own1: "own_mailboxes w1" and own2: "own_mailboxes w2"
    using own by (simp_all add: w1_def w2_def)
  have o2': "range_order w1 o2" and o3': "range_order w2 o3"
    using o2 o3 by (simp_all add: w1_def w2_def)
  have l2: "logger w2 = None \<longleftrightarrow> logger w = None" by (simp add: w1_def w2_def)
  have n0: "\<not> full (chans w ch)" by (simp add: fresh full_def)
  from Broadcast_outcome [OF o1 own reg, of m1] n0
  have c1: "chans w1 ch = \<lparr>cap = 2, buf = [m1]\<rparr>" and d1: "drops sid w1 = drops sid w"
    unfolding w1_def by (simp_all add: fresh)
  have n1: "\<not> full (chans w1 ch)" by (simp add: c1 full_def)
  from Broadcast_outcome [OF o2' own1 r1, of m2] n1
  have c2: "chans w2 ch = \<lparr>cap = 2, buf = [m1, m2]\<rparr>" and d2: "drops sid w2 = drops sid w1"
    unfolding w2_def by (simp_all add: c1)
  have n2: "full (chans w2 ch)" by (simp add: c2 full_def)
  from Broadcast_outcome [OF o3' own2 r2, of m3] n2
  have c3: "chans w3 ch = chans w2 ch"
    and d3: "drops sid w3 = drops sid w2 + (if logger w2 = None then 0 else 1)"
    unfolding w3_def by simp_all
  have "buf (chans w3 ch) = [m1, m2]" by (simp add: c3 c2)
  moreover have "drops sid w3 = drops sid w + (if logger w = None then 0 else 1)"
    by (simp add: d3 d2 d1 l2)
  ultimately show ?thesis
    unfolding w3_def w2_def w1_def by simp
qed

theorem drop_newest_on_full_witness:
  "range_order (capacity_two (Some [])) [''a'']
   \<and> own_mailboxes (capacity_two (Some []))
   \<and> subscribers (capacity_two (Some [])) ''a'' = Some 0
   \<and> chans (capacity_two (Some [])) 0 = \<lparr>cap = 2, buf = []\<rparr>
   \<and> buf (chans (Broadcast (Broadcast (Broadcast (capacity_two (Some [])) [''a''] 1) [''a''] 2) [''a''] 3) 0) = [1, 2]
   \<and> drops ''a'' (Broadcast (Broadcast (Broadcast (capacity_two (Some [])) [''a''] 1) [''a''] 2) [''a''] 3) = 1"
proof -
  have d0: "drops ''a'' (capacity_two (Some [])) = 0"
    by (simp add: capacity_two_def run_defs)
  show ?thesis
    using drop_newest_on_full [OF capacity_two_facts(1,1,1,2,3,4), of "Some []" 1 2 3] d0
    by (simp add: capacity_two_facts)
qed

text \<open>
  Claim C5 as stated fails for a Broadcaster built with a nil logger: the queue holds
  \<open>[1, 2]\<close>, the sample 3 is dropped, and no drop signal is recorded.
\<close>

theorem drop_newest_unrecorded:
  "range_order (capacity_two None) [''a'']
   \<and> own_mailboxes (capacity_two None)
   \<and> subscribers (capacity_two None) ''a'' = Some 0
   \<and> chans (capacity_two None) 0 = \<lparr>cap = 2, buf = []\<rparr>
   \<and> buf (chans (Broadcast (Broadcast (Broadcast (capacity_two None) [''a''] 1) [''a''] 2) [''a''] 3) 0) = [1, 2]
   \<and> events (Broadcast (Broadcast (Broadcast (capacity_two None) [''a''] 1) [''a''] 2) [''a''] 3) = []
   \<and> drops ''a'' (Broadcast (Broadcast (Broadcast (capacity_two None) [''a''] 1) [''a''] 2) [''a''] 3) = 0"
  by (simp add: capacity_two_facts) (simp add: capacity_two_def run_defs)

text \<open>
  Claim C6. \<^verbatim>\<open>Unregister\<close> has no failing branch. A second call for the same id
  leaves the map and the channels as the first call left them, and a call for an id
  that is not in the map leaves the map and the channels as they were; all such a
  call does is ask the logger (when there is one) for the line
  "subscriber unregistered". After any call the id is absent.
\<close>

theorem Unregister_idempotent:
  "subscribers (Unregister (Unregister w sid) sid) = subscribers (Unregister w sid)
   \<and> chans (Unregister (Unregister w sid) sid) = chans (Unregister w sid)
   \<and> Unregister (Unregister w sid) sid = blog (SubscriberUnregistered sid) (Unregister w sid)
   \<and> subscribers (Unregister w sid) sid = None
   \<and> (subscribers w sid = None \<longrightarrow>
        subscribers (Unregister w sid) = subscribers w
        \<and> chans (Unregister w sid) = chans w
        \<and> Unregister w sid = blog (SubscriberUnregistered sid) w)"
proof -
  have gone: "subscribers (Unregister w sid) sid = None" by simp
  have "Unregister (Unregister w sid) sid = blog (SubscriberUnregistered sid) (Unregister w sid)"
    using gone by (rule Unregister_absent)
  then show ?thesis
    by (simp add: Unregister_absent)
qed

theorem Unregister_idempotent_witness:
  "subscribers (capacity_two (Some [])) ''b'' = None
   \<and> subscribers (Unregister (capacity_two (Some [])) ''b'') = subscribers (capacity_two (Some []))
   \<and> subscribers (Unregister (Unregister (capacity_two (Some [])) ''a'') ''a'') ''a'' = None
   \<and> subscribers (Unregister (Unregister (capacity_two (Some [])) ''a'') ''a'')
       = subscribers (Unregister (capacity_two (Some [])) ''a'')"
proof -
  have absent: "subscribers (capacity_two (Some [])) ''b'' = None"
    by (simp add: capacity_two_def run_defs)
  show ?thesis
    using absent Unregister_idempotent [of "capacity_two (Some [])" "''b''"]
      Unregister_idempotent [of "capacity_two (Some [])" "''a''"]
    by simp
qed

text \<open>
  Claim C7. A run of \<^verbatim>\<open>Register\<close> calls with pairwise distinct ids, none of them in
  the map before, adds exactly one entry per call: the map has the old keys and the
  new ids, the number of new keys is the number of calls, every id holds the channel
  it was registered with, and every other entry is as it was.
\<close>

theorem Register_all_distinct:
  assumes d: "distinct (map fst ps)" and fresh: "\<forall>s \<in> fst ` set ps. subscribers w s = None"
  shows "dom (subscribers (Register_all w ps)) = dom (subscribers w) \<union> fst ` set ps
       \<and> card (dom (subscribers (Register_all w ps)) - dom (subscribers w)) = length ps
       \<and> (\<forall>(s, c) \<in> set ps. subscribers (Register_all w ps) s = Some c)
       \<and> (\<forall>s. s \<notin> fst ` set ps \<longrightarrow> subscribers (Register_all w ps) s = subscribers w s)"
proof -
  have disj: "fst ` set ps \<inter> dom (subscribers w) = {}"
    using fresh by (auto simp: dom_def)
  have "dom (subscribers (Register_all w ps)) - dom (subscribers w) = fst ` set ps"
    using disj by (auto simp: Register_all_dom)
  moreover have "card (fst ` set ps) = length ps"
    using d distinct_card [of "map fst ps"] by simp
  ultimately have "card (dom (subscribers (Register_all w ps)) - dom (subscribers w)) = length ps"
    by simp
  moreover have "\<forall>(s, c) \<in> set ps. subscribers (Register_all w ps) s = Some c"
    using Register_all_entry [OF d] by auto
  ultimately show ?thesis
    by (simp add: Register_all_dom Register_all_other)
qed

theorem Register_all_distinct_witness:
  "distinct (map fst [(''a'', 0), (''b'', 1), (''c'', 2)])
   \<and> subscribers (NewBroadcaster None :: nat relay) ''a'' = None
   \<and> subscribers (NewBroadcaster None :: nat relay) ''b'' = None
   \<and> subscribers (NewBroadcaster None :: nat relay) ''c'' = None
   \<and> dom (subscribers (Register_all (NewBroadcaster None :: nat relay) [(''a'', 0), (''b'', 1), (''c'', 2)]))
       = {''a'', ''b'', ''c''}
   \<and> card (dom (subscribers (Register_all (NewBroadcaster None :: nat relay) [(''a'', 0), (''b'', 1), (''c'', 2)]))) = 3"
proof -
  have d: "distinct (map fst [(''a'', 0::nat), (''b'', 1), (''c'', 2)])" by simp
  have f: "\<forall>s \<in> fst ` set [(''a'', 0::nat), (''b'', 1), (''c'', 2)].
      subscribers (NewBroadcaster None :: nat relay) s = None"
    by (simp add: NewBroadcaster_def)
  have e: "dom (subscribers (NewBroadcaster None :: nat relay)) = {}"
    by (simp add: NewBroadcaster_def)
  show ?thesis
    using Register_all_distinct [OF d f] d e by (auto simp: NewBroadcaster_def)
qed

text \<open>
  Claim C9. \<^verbatim>\<open>Broadcast\<close> leaves the map as it was, so the same ids are registered
  with the same channels, a subscriber whose sample was dropped included; it hands out
  no channel; no capacity changes; and each queue is the old queue followed by copies
  of the sample.
\<close>

theorem Broadcast_frame:
  "subscribers (Broadcast w order msg) = subscribers w
   \<and> dom (subscribers (Broadcast w order msg)) = dom (subscribers w)
   \<and> nextc (Broadcast w order msg) = nextc w
   \<and> (\<forall>a. cap (chans (Broadcast w order msg) a) = cap (chans w a))
   \<and> (\<forall>a. \<exists>n. buf (chans (Broadcast w order msg) a) = buf (chans w a) @ replicate n msg)"
  using Broadcast_buf [of w order msg] by simp

section \<open>The loop of SendMetrics\<close>

lemma slog_blog: "logger w \<noteq> None \<Longrightarrow> slog e w = Some (blog e w)"
  by (auto simp: slog_def blog_def split: option.splits)

lemma slog_None: "logger w = None \<Longrightarrow> slog e w = None"
  by (simp add: slog_def)

lemma range_order_blog [simp]: "range_order (blog e w) order = range_order w order"
  by (simp add: range_order_def)

lemma own_mailboxes_blog [simp]: "own_mailboxes (blog e w) = own_mailboxes w"
  by (simp add: own_mailboxes_def)

lemma broadcast_each_logger [simp]: "logger (broadcast_each rt k w reqs) = None \<longleftrightarrow> logger w = None"
  by (induction reqs arbitrary: w k) simp_all

lemma broadcast_each_subscribers [simp]: "subscribers (broadcast_each rt k w reqs) = subscribers w"
  by (induction reqs arbitrary: w k) simp_all

lemma recv_loop_samples:
  "logger w \<noteq> None \<Longrightarrow>
     recv_loop rt k ack w (map Inr reqs @ rest)
       = recv_loop rt (k + length reqs) ack (broadcast_each rt k w reqs) rest"
proof (induction reqs arbitrary: w k)
  case Nil
  then show ?case by simp
next
  case (Cons req reqs)
  have "logger (Broadcast (blog (ReceivedBatch req) w) (rt k) req) \<noteq> None"
    using Cons.prems by simp
  from Cons.IH [OF this, of "Suc k"] show ?case
    using Cons.prems by (simp add: slog_blog)
qed

lemma SendMetrics_clean:
  assumes "logger w \<noteq> None"
  shows "SendMetrics rt ack w (map Inr reqs @ Inl EOF # rest)
       = (Return ack, blog AgentStreamClosed (broadcast_each rt 0 (blog StartedReceiving w) reqs), 1)"
proof -
  have l: "logger (blog StartedReceiving w) \<noteq> None" using assms by simp
  have l': "logger (broadcast_each rt 0 (blog StartedReceiving w) reqs) \<noteq> None" using l by simp
  show ?thesis
    using assms by (simp add: SendMetrics_def slog_blog recv_loop_samples [OF l] slog_blog [OF l'])
qed

lemma SendMetrics_failed:
  assumes "logger w \<noteq> None" and "err \<noteq> EOF"
  shows "SendMetrics rt ack w (map Inr reqs @ Inl err # rest)
       = (Return (Some err), blog (FailedToReceive err) (broadcast_each rt 0 (blog StartedReceiving w) reqs), 0)"
proof -
  have l: "logger (blog StartedReceiving w) \<noteq> None" using assms by simp
  have l': "logger (broadcast_each rt 0 (blog StartedReceiving w) reqs) \<noteq> None" using l by simp
  show ?thesis
    using assms by (simp add: SendMetrics_def slog_blog recv_loop_samples [OF l] slog_blog [OF l'])
qed

lemma SendMetrics_pending:
  assumes "logger w \<noteq> None"
  shows "SendMetrics rt ack w (map Inr reqs)
       = (Pending, broadcast_each rt 0 (blog StartedReceiving w) reqs, 0)"
proof -
  have l: "logger (blog StartedReceiving w) \<noteq> None" using assms by simp
  show ?thesis
    using assms recv_loop_samples [OF l, of rt 0 ack reqs "[]"]
    by (simp add: SendMetrics_def slog_blog)
qed

lemma broadcast_each_delivers:
  assumes "\<forall>k. range_order w (rt k)" and "own_mailboxes w" and "subscribers w sid = Some ch"
    and "length (buf (chans w ch)) + length reqs \<le> cap (chans w ch)"
  shows "chans (broadcast_each rt k w reqs) ch = (chans w ch)\<lparr>buf := buf (chans w ch) @ reqs\<rparr>"
  using assms
proof (induction reqs arbitrary: w k)
  case Nil
  then show ?case by simp
next
  case (Cons req reqs)
  define w0 where "w0 = blog (ReceivedBatch req) w"
  define w1 where "w1 = Broadcast w0 (rt k) req"
  have ro: "range_order w0 (rt k)" and own: "own_mailboxes w0" and reg: "subscribers w0 sid = Some ch"
    using Cons.prems by (simp_all add: w0_def)
  have room: "\<not> full (chans w0 ch)"
    using Cons.prems(4) by (simp add: full_def w0_def)
  from Broadcast_outcome [OF ro own reg, of req] room
  have c1: "chans w1 ch = (chans w ch)\<lparr>buf := buf (chans w ch) @ [req]\<rparr>"
    by (simp add: w1_def w0_def)
  have p1: "\<forall>k. range_order w1 (rt k)" using Cons.prems(1) by (simp add: w1_def w0_def)
  have p2: "own_mailboxes w1" using Cons.prems(2) by (simp add: w1_def w0_def)
  have p3: "subscribers w1 sid = Some ch" using Cons.prems(3) by (simp add: w1_def w0_def)
  have p4: "length (buf (chans w1 ch)) + length reqs \<le> cap (chans w1 ch)"
    using Cons.prems(4) by (simp add: c1)
  have "chans (broadcast_each rt (Suc k) w1 reqs) ch = (chans w1 ch)\<lparr>buf := buf (chans w1 ch) @ reqs\<rparr>"
    using p1 p2 p3 p4 by (rule Cons.IH)
  also have "\<dots> = (chans w ch)\<lparr>buf := buf (chans w ch) @ req # reqs\<rparr>"
    by (simp add: c1)
  finally show ?case by (simp add: w1_def w0_def)
qed

lemma one_listener_facts:
  "logger one_listener \<noteq> None"
  "range_order one_listener [''a'']"
  "own_mailboxes one_listener"
  "subscribers one_listener ''a'' = Some 0"
  "chans one_listener 0 = \<lparr>cap = 100, buf = []\<rparr>"
  by (auto simp: one_listener_def NewMetricsServer_def run_defs inj_on_def)

section \<open>The loop of SubscribeMetrics\<close>

lemma events_slog: "slog e w = Some w' \<Longrightarrow> events w' = events w @ [e]"
  by (auto simp: slog_def events_def split: option.splits)

lemma slog_fields:
  "slog e w = Some w' \<Longrightarrow> subscribers w' = subscribers w \<and> chans w' = chans w \<and> nextc w' = nextc w
     \<and> logger w \<noteq> None \<and> logger w' \<noteq> None"
  by (auto simp: slog_def split: option.splits)

lemma unregistered_blog:
  "unregistered sid (blog e w)
     = unregistered sid w + (if e = SubscriberUnregistered sid \<and> logger w \<noteq> None then 1 else 0)"
  by (auto simp: unregistered_def events_blog) (simp add: events_def)

lemma unregistered_slog:
  "slog e w = Some w' \<Longrightarrow> e \<noteq> SubscriberUnregistered sid \<Longrightarrow> unregistered sid w' = unregistered sid w"
  by (simp add: unregistered_def events_slog)

lemma unregistered_chans_update [simp]: "unregistered sid (w\<lparr>chans := f\<rparr>) = unregistered sid w"
  by (simp add: unregistered_def)

lemma unregistered_Broadcast_step [simp]:
  "unregistered sid (Broadcast_step msg s w) = unregistered sid w"
  by (auto simp: unregistered_def events_Broadcast_step split: option.splits) (simp_all add: events_def)

lemma unregistered_Broadcast [simp]: "unregistered sid (Broadcast w order msg) = unregistered sid w"
  by (induction order arbitrary: w) (simp_all add: Broadcast_Cons)

lemma unregistered_Unregister:
  "logger w \<noteq> None \<Longrightarrow> unregistered sid (Unregister w sid) = unregistered sid w + 1"
  by (simp add: Unregister_def unregistered_blog) (simp add: unregistered_def events_def)

lemma leave_Return:
  "leave sid r st = (Return r', st') \<Longrightarrow>
     r' = r \<and> subscribers (world st') sid = None
     \<and> unregistered sid (world st') = unregistered sid (world st) + 1
     \<and> sent st' = sent st \<and> cancelled st' = cancelled st"
proof -
  assume a: "leave sid r st = (Return r', st')"
  then obtain w1 where w1: "slog (SubscriberDisconnected sid) (world st) = Some w1"
    and st': "st' = st\<lparr>world := Unregister w1 sid\<rparr>" and r: "r' = r"
    by (auto simp: leave_def deferred_def split: option.splits)
  have "unregistered sid w1 = unregistered sid (world st)"
    using w1 by (rule unregistered_slog) simp
  moreover have "logger w1 \<noteq> None" using slog_fields [OF w1] by simp
  ultimately show ?thesis
    using r st' by (simp add: unregistered_Unregister)
qed

lemma leave_not_Pending [simp]: "fst (leave sid r st) \<noteq> Pending"
  by (simp add: leave_def split: option.splits)

lemma leave_logger: "logger (world st) \<noteq> None \<Longrightarrow>
    leave sid r st = (Return r, st\<lparr>world := Unregister (blog (SubscriberDisconnected sid) (world st)) sid\<rparr>)"
  by (simp add: leave_def deferred_def slog_blog)

lemma stream_loop_append:
  "stream_loop sid ch st (pre @ post)
     = (if fst (stream_loop sid ch st pre) = Pending
        then stream_loop sid ch (snd (stream_loop sid ch st pre)) post
        else stream_loop sid ch st pre)"
  by (induction sid ch st pre rule: stream_loop.induct)
     (simp_all add: Let_def split: list.splits option.splits)

lemma stream_loop_Return:
  "stream_loop sid ch st script = (Return r, st') \<Longrightarrow>
     subscribers (world st') sid = None
     \<and> unregistered sid (world st') = unregistered sid (world st) + 1"
proof (induction sid ch st script rule: stream_loop.induct)
  case (1 sid ch st)
  then show ?case by simp
next
  case (2 sid ch st order msg es)
  then show ?case by simp
next
  case (3 sid ch st es)
  then show ?case by simp
next
  case (4 sid ch st r0 es)
  show ?case
  proof (cases "buf (chans (world st) ch)")
    case Nil
    with 4 show ?thesis by simp
  next
    case (Cons msg q)
    define w where "w = (world st)\<lparr>chans := (chans (world st))(ch := (chans (world st) ch)\<lparr>buf := q\<rparr>)\<rparr>"
    show ?thesis
    proof (cases r0)
      case None
      from "4.prems" Cons None obtain w' where w': "slog (SentMetrics sid) w = Some w'"
        and rest: "stream_loop sid ch (st\<lparr>world := w', sent := sent st @ [msg]\<rparr>) es = (Return r, st')"
        by (auto simp: w_def Let_def split: option.splits)
      have "subscribers (world st') sid = None
          \<and> unregistered sid (world st') = unregistered sid (world (st\<lparr>world := w', sent := sent st @ [msg]\<rparr>)) + 1"
        using "4.IH"(2) [OF Cons w_def None w' rest] .
      moreover have "unregistered sid w' = unregistered sid w"
        using w' by (rule unregistered_slog) simp
      ultimately show ?thesis by (simp add: w_def)
    next
      case (Some err)
      from "4.prems" Cons Some obtain w' where w': "slog (FailedToSend sid err) w = Some w'"
        and rest: "leave sid (Some err) (st\<lparr>world := w'\<rparr>) = (Return r, st')"
        by (auto simp: w_def Let_def split: option.splits)
      have "unregistered sid w' = unregistered sid w"
        using w' by (rule unregistered_slog) simp
      with leave_Return [OF rest] show ?thesis by (simp add: w_def)
    qed
  qed
next
  case (5 sid ch st es)
  show ?case
  proof (cases "cancelled st")
    case True
    from "5.prems" True obtain w' where w': "slog (ContextCanceled sid) (world st) = Some w'"
      and rest: "leave sid None (st\<lparr>world := w'\<rparr>) = (Return r, st')"
      by (auto split: option.splits)
    have "unregistered sid w' = unregistered sid (world st)"
      using w' by (rule unregistered_slog) simp
    with leave_Return [OF rest] show ?thesis by simp
  next
    case False
    with 5 show ?thesis by simp
  qed
qed

lemma leave_Pending_False: "leave sid r st = (Pending, st') \<Longrightarrow> False"
  by (auto simp: leave_def split: option.splits)

lemma stream_loop_Pending:
  "stream_loop sid ch st script = (Pending, st') \<Longrightarrow>
     subscribers (world st') = subscribers (world st)
     \<and> unregistered sid (world st') = unregistered sid (world st)
     \<and> (logger (world st') = None \<longleftrightarrow> logger (world st) = None)"
proof (induction sid ch st script rule: stream_loop.induct)
  case (1 sid ch st)
  then show ?case by simp
next
  case (2 sid ch st order msg es)
  then show ?case by simp
next
  case (3 sid ch st es)
  then show ?case by simp
next
  case (4 sid ch st r0 es)
  show ?case
  proof (cases "buf (chans (world st) ch)")
    case Nil
    with 4 show ?thesis by simp
  next
    case (Cons msg q)
    define w where "w = (world st)\<lparr>chans := (chans (world st))(ch := (chans (world st) ch)\<lparr>buf := q\<rparr>)\<rparr>"
    show ?thesis
    proof (cases r0)
      case None
      from "4.prems" Cons None obtain w' where w': "slog (SentMetrics sid) w = Some w'"
        and rest: "stream_loop sid ch (st\<lparr>world := w', sent := sent st @ [msg]\<rparr>) es = (Pending, st')"
        by (auto simp: w_def Let_def split: option.splits)
      note ih = "4.IH"(2) [OF Cons w_def None w' rest]
      have "unregistered sid w' = unregistered sid w"
        using w' by (rule unregistered_slog) simp
      with ih slog_fields [OF w'] show ?thesis by (auto simp: w_def)
    next
      case (Some err)
      from "4.prems" Cons Some have False
        by (auto simp: Let_def split: option.splits dest: leave_Pending_False)
      then show ?thesis ..
    qed
  qed
next
  case (5 sid ch st es)
  show ?case
  proof (cases "cancelled st")
    case True
    from "5.prems" True have False
      by (auto split: option.splits dest: leave_Pending_False)
    then show ?thesis ..
  next
    case False
    with 5 show ?thesis by simp
  qed
qed

lemma stream_loop_exit_step:
  assumes "logger (world st) \<noteq> None" and "exit_event ch st ev = Some r"
  shows "\<exists>st'. stream_loop sid ch st (ev # post) = (Return r, st')"
proof (cases ev)
  case (Env_Broadcast order msg)
  with assms show ?thesis by simp
next
  case Ctx_Cancel
  with assms show ?thesis by simp
next
  case (Select_Recv r0)
  with assms obtain err where r0: "r0 = Some err" and r: "r = Some err"
    and ne: "buf (chans (world st) ch) \<noteq> []"
    by (cases r0) (auto split: if_splits)
  from ne obtain msg q where q: "buf (chans (world st) ch) = msg # q" by (cases "buf (chans (world st) ch)") auto
  show ?thesis
    using assms(1) by (simp add: Select_Recv r0 r q Let_def slog_blog leave_logger)
next
  case Select_Done
  with assms have "cancelled st" and "r = None" by (auto split: if_splits)
  then show ?thesis
    using assms(1) by (simp add: Select_Done slog_blog leave_logger)
qed

lemma stream_loop_exit_event:
  "stream_loop sid ch st script = (Return r, st') \<Longrightarrow>
     \<exists>pre ev post st1. script = pre @ ev # post \<and> stream_loop sid ch st pre = (Pending, st1)
        \<and> exit_event ch st1 ev = Some r"
proof (induction sid ch st script rule: stream_loop.induct)
  case (1 sid ch st)
  then show ?case by simp
next
  case (2 sid ch st order msg es)
  then obtain pre ev post st1 where "es = pre @ ev # post"
    and "stream_loop sid ch (st\<lparr>world := Broadcast (world st) order msg\<rparr>) pre = (Pending, st1)"
    and "exit_event ch st1 ev = Some r" by auto
  then have "Env_Broadcast order msg # es = (Env_Broadcast order msg # pre) @ ev # post
      \<and> stream_loop sid ch st (Env_Broadcast order msg # pre) = (Pending, st1)
      \<and> exit_event ch st1 ev = Some r" by simp
  then show ?case by blast
next
  case (3 sid ch st es)
  then obtain pre ev post st1 where "es = pre @ ev # post"
    and "stream_loop sid ch (st\<lparr>cancelled := True\<rparr>) pre = (Pending, st1)"
    and "exit_event ch st1 ev = Some r" by auto
  then have "Ctx_Cancel # es = (Ctx_Cancel # pre) @ ev # post
      \<and> stream_loop sid ch st (Ctx_Cancel # pre) = (Pending, st1)
      \<and> exit_event ch st1 ev = Some r" by simp
  then show ?case by blast
next
  case (4 sid ch st r0 es)
  show ?case
  proof (cases "buf (chans (world st) ch)")
    case Nil
    with 4 obtain pre ev post st1 where "es = pre @ ev # post"
      and "stream_loop sid ch st pre = (Pending, st1)"
      and "exit_event ch st1 ev = Some r" by auto
    with Nil have "Select_Recv r0 # es = (Select_Recv r0 # pre) @ ev # post
        \<and> stream_loop sid ch st (Select_Recv r0 # pre) = (Pending, st1)
        \<and> exit_event ch st1 ev = Some r" by simp
    then show ?thesis by blast
  next
    case (Cons msg q)
    define w where "w = (world st)\<lparr>chans := (chans (world st))(ch := (chans (world st) ch)\<lparr>buf := q\<rparr>)\<rparr>"
    show ?thesis
    proof (cases r0)
      case None
      from "4.prems" Cons None obtain w' where w': "slog (SentMetrics sid) w = Some w'"
        and rest: "stream_loop sid ch (st\<lparr>world := w', sent := sent st @ [msg]\<rparr>) es = (Return r, st')"
        by (auto simp: w_def Let_def split: option.splits)
      from "4.IH"(2) [OF Cons w_def None w' rest]
      obtain pre ev post st1 where "es = pre @ ev # post"
        and "stream_loop sid ch (st\<lparr>world := w', sent := sent st @ [msg]\<rparr>) pre = (Pending, st1)"
        and "exit_event ch st1 ev = Some r" by auto
      with Cons None w' have "Select_Recv r0 # es = (Select_Recv r0 # pre) @ ev # post
          \<and> stream_loop sid ch st (Select_Recv r0 # pre) = (Pending, st1)
          \<and> exit_event ch st1 ev = Some r" by (simp add: w_def Let_def)
      then show ?thesis by blast
    next
      case (Some err)
      from "4.prems" Cons Some obtain w' where w': "slog (FailedToSend sid err) w = Some w'"
        and rest: "leave sid (Some err) (st\<lparr>world := w'\<rparr>) = (Return r, st')"
        by (auto simp: w_def Let_def split: option.splits)
      from leave_Return [OF rest] have "r = Some err" by simp
      with Cons Some have "Select_Recv r0 # es = [] @ Select_Recv r0 # es
          \<and> stream_loop sid ch st [] = (Pending, st)
          \<and> exit_event ch st (Select_Recv r0) = Some r" by simp
      then show ?thesis by blast
    qed
  qed
next
  case (5 sid ch st es)
  show ?case
  proof (cases "cancelled st")
    case True
    from "5.prems" True obtain w' where w': "slog (ContextCanceled sid) (world st) = Some w'"
      and rest: "leave sid None (st\<lparr>world := w'\<rparr>) = (Return r, st')"
      by (auto split: option.splits)
    from leave_Return [OF rest] have "r = None" by simp
    with True have "Select_Done # es = [] @ Select_Done # es
        \<and> stream_loop sid ch st [] = (Pending, st)
        \<and> exit_event ch st Select_Done = Some r" by simp
    then show ?thesis by blast
  next
    case False
    with 5 obtain pre ev post st1 where "es = pre @ ev # post"
      and "stream_loop sid ch st pre = (Pending, st1)"
      and "exit_event ch st1 ev = Some r" by auto
    with False have "Select_Done # es = (Select_Done # pre) @ ev # post
        \<and> stream_loop sid ch st (Select_Done # pre) = (Pending, st1)
        \<and> exit_event ch st1 ev = Some r" by simp
    then show ?thesis by blast
  qed
qed

lemma make_chan_fields [simp]:
  "subscribers (make_chan n w) = subscribers w"
  "logger (make_chan n w) = logger w"
  "nextc (make_chan n w) = Suc (nextc w)"
  "chans (make_chan n w) = (chans w)(nextc w := \<lparr>cap = n, buf = []\<rparr>)"
  "events (make_chan n w) = events w"
  "unregistered sid (make_chan n w) = unregistered sid w"
  by (simp_all add: make_chan_def events_def unregistered_def)

lemma events_subscribers_update [simp]: "events (w\<lparr>subscribers := f\<rparr>) = events w"
  by (simp add: events_def)

lemma unregistered_subscribers_update [simp]:
  "unregistered sid (w\<lparr>subscribers := f\<rparr>) = unregistered sid w"
  by (simp add: unregistered_def)

lemma SubscribeMetrics_no_logger:
  "logger w = None \<Longrightarrow> fst (SubscribeMetrics w sid script) = Panic"
  by (simp add: SubscribeMetrics_def slog_None)

lemma SubscribeMetrics_logger:
  "logger w \<noteq> None \<Longrightarrow>
     SubscribeMetrics w sid script = stream_loop sid (nextc w) (entered w sid) script"
  by (simp add: SubscribeMetrics_def slog_blog entered_def)

lemma entered_fields:
  "subscribers (world (entered w sid)) sid = Some (nextc w)"
  "chans (world (entered w sid)) (nextc w) = \<lparr>cap = 100, buf = []\<rparr>"
  "unregistered sid (world (entered w sid)) = unregistered sid w"
  "logger (world (entered w sid)) = None \<longleftrightarrow> logger w = None"
  "sent (entered w sid) = []"
  by (simp_all add: entered_def Register_def unregistered_blog)

lemmas loop_defs = SubscribeMetrics_def slog_def leave_def deferred_def Let_def
  fresh_server_def NewMetricsServer_def unregistered_def

lemma fresh_server_facts:
  "allocated fresh_server"
  "logger fresh_server \<noteq> None"
  "nextc fresh_server = 0"
  by (simp_all add: allocated_def fresh_server_def NewMetricsServer_def NewBroadcaster_def)

section \<open>Order of delivery\<close>

lemma subseq_distinct: "subseq xs ys \<Longrightarrow> distinct ys \<Longrightarrow> distinct xs"
proof (induction rule: list_emb.induct)
  case (list_emb_Cons2 x y xs ys)
  then have "x \<notin> set xs" using list_emb_set [of "(=)" xs ys x] by auto
  with list_emb_Cons2 show ?case by simp
qed simp_all

lemma subseq_pair_sets: "subseq [a, b] ys \<Longrightarrow> a \<in> set ys \<and> b \<in> set ys"
  using list_emb_set [of "(=)" "[a, b]" ys] by auto

lemma subseq_pair_distinct:
  "distinct ys \<Longrightarrow> subseq [a, b] ys \<Longrightarrow> a \<noteq> b \<and> \<not> subseq [b, a] ys"
proof (induction ys)
  case Nil
  then show ?case by simp
next
  case (Cons y ys)
  show ?case
  proof (cases "a = y")
    case True
    with Cons.prems have b: "b \<in> set ys" by (simp add: subseq_singleton_left)
    with Cons.prems True have ab: "a \<noteq> b" by auto
    have "\<not> subseq [b, a] (y # ys)"
    proof
      assume "subseq [b, a] (y # ys)"
      with ab True have "subseq [b, a] ys" by simp
      then have "a \<in> set ys" using subseq_pair_sets by fastforce
      with Cons.prems True show False by simp
    qed
    with ab show ?thesis by simp
  next
    case False
    with Cons.prems have ab: "subseq [a, b] ys" by simp
    with Cons have ih: "a \<noteq> b" "\<not> subseq [b, a] ys" by auto
    have "\<not> subseq [b, a] (y # ys)"
    proof
      assume s: "subseq [b, a] (y # ys)"
      show False
      proof (cases "b = y")
        case True
        from ab have "b \<in> set ys" using subseq_pair_sets by fastforce
        with Cons.prems True show False by simp
      next
        case False
        with s ih show False by simp
      qed
    qed
    with ih show ?thesis by simp
  qed
qed

lemma subseq_pair_either:
  "a \<noteq> b \<Longrightarrow> a \<in> set xs \<Longrightarrow> b \<in> set xs \<Longrightarrow> subseq [a, b] xs \<or> subseq [b, a] xs"
  by (induction xs) (auto simp: subseq_singleton_left)

lemma subseq_pair_order:
  assumes d: "distinct ys" and s: "subseq xs ys" and ab: "subseq [a, b] ys"
    and a: "a \<in> set xs" and b: "b \<in> set xs"
  shows "subseq [a, b] xs \<and> \<not> subseq [b, a] xs"
proof -
  from subseq_pair_distinct [OF d ab] have ne: "a \<noteq> b" and nba: "\<not> subseq [b, a] ys" by simp_all
  have "\<not> subseq [b, a] xs"
  proof
    assume "subseq [b, a] xs"
    then have "subseq [b, a] ys" using s by (rule subseq_order.trans)
    with nba show False ..
  qed
  with subseq_pair_either [OF ne a b] show ?thesis by blast
qed

lemma Broadcast_sole:
  assumes d: "distinct order" and sole: "\<forall>s. subscribers w s = Some ch \<longrightarrow> s = sid"
  shows "buf (chans (Broadcast w order msg) ch) = buf (chans w ch)
       \<or> (buf (chans (Broadcast w order msg) ch) = buf (chans w ch) @ [msg]
           \<and> length (buf (chans w ch)) < cap (chans w ch))"
proof (cases "sid \<in> set order")
  case False
  have "\<forall>s \<in> set order. subscribers w s \<noteq> Some ch"
  proof
    fix s assume "s \<in> set order"
    with False have "s \<noteq> sid" by auto
    with sole show "subscribers w s \<noteq> Some ch" by auto
  qed
  then have "chans (Broadcast w order msg) ch = chans w ch" by (rule Broadcast_untouched)
  then show ?thesis by simp
next
  case True
  then obtain xs ys where split: "order = xs @ sid # ys"
    by (auto simp: in_set_conv_decomp)
  with d have nx: "sid \<notin> set xs" and ny: "sid \<notin> set ys" by auto
  define w1 where "w1 = Broadcast w xs msg"
  define w2 where "w2 = Broadcast_step msg sid w1"
  have ox: "\<forall>s \<in> set xs. subscribers w s \<noteq> Some ch"
  proof
    fix s assume "s \<in> set xs"
    with nx have "s \<noteq> sid" by auto
    with sole show "subscribers w s \<noteq> Some ch" by auto
  qed
  have s2: "subscribers w2 = subscribers w" by (simp add: w2_def w1_def)
  have oy: "\<forall>s \<in> set ys. subscribers w2 s \<noteq> Some ch"
    unfolding s2
  proof
    fix s assume "s \<in> set ys"
    with ny have "s \<noteq> sid" by auto
    with sole show "subscribers w s \<noteq> Some ch" by auto
  qed
  have c1: "chans w1 ch = chans w ch"
    unfolding w1_def using ox by (rule Broadcast_untouched)
  have whole: "Broadcast w order msg = Broadcast w2 ys msg"
    by (simp add: split Broadcast_append Broadcast_Cons w1_def w2_def)
  have c2: "chans (Broadcast w order msg) ch = chans w2 ch"
    unfolding whole using oy by (rule Broadcast_untouched)
  have "buf (chans w2 ch) = buf (chans w1 ch)
      \<or> (buf (chans w2 ch) = buf (chans w1 ch) @ [msg] \<and> length (buf (chans w1 ch)) < cap (chans w1 ch))"
    by (auto simp: w2_def Broadcast_step_def split: option.splits)
  then show ?thesis by (simp add: c2 c1)
qed

lemma leave_result:
  "leave sid r st = (out, st') \<Longrightarrow>
     sent st' = sent st \<and> chans (world st') = chans (world st)"
  by (auto simp: leave_def deferred_def split: option.splits dest: slog_fields)

lemma stream_loop_fifo:
  assumes "\<forall>s. subscribers (world st) s = Some ch \<longrightarrow> s = sid"
    and "subseq (sent st @ buf (chans (world st) ch)) pre"
    and "length (buf (chans (world st) ch)) \<le> cap (chans (world st) ch)"
    and "orders_distinct script"
    and "stream_loop sid ch st script = (out, st')"
  shows "subseq (sent st' @ buf (chans (world st') ch)) (pre @ broadcasts script)
       \<and> length (buf (chans (world st') ch)) \<le> cap (chans (world st') ch)
       \<and> cap (chans (world st') ch) = cap (chans (world st) ch)"
  using assms
proof (induction sid ch st script arbitrary: pre rule: stream_loop.induct)
  case (1 sid ch st)
  then show ?case by auto
next
  case (2 sid ch st order msg es)
  define st1 where "st1 = st\<lparr>world := Broadcast (world st) order msg\<rparr>"
  have d: "distinct order" and od: "orders_distinct es" using "2.prems"(4) by simp_all
  from Broadcast_sole [OF d "2.prems"(1), of msg]
  have b: "buf (chans (world st1) ch) = buf (chans (world st) ch)
      \<or> (buf (chans (world st1) ch) = buf (chans (world st) ch) @ [msg]
          \<and> length (buf (chans (world st) ch)) < cap (chans (world st) ch))"
    by (simp add: st1_def)
  have p1: "\<forall>s. subscribers (world st1) s = Some ch \<longrightarrow> s = sid"
    using "2.prems"(1) by (simp add: st1_def)
  have p2: "subseq (sent st1 @ buf (chans (world st1) ch)) (pre @ [msg])"
  proof -
    from b show ?thesis
    proof
      assume "buf (chans (world st1) ch) = buf (chans (world st) ch)"
      with "2.prems"(2) show ?thesis by (simp add: st1_def subseq_rev_drop_many)
    next
      assume "buf (chans (world st1) ch) = buf (chans (world st) ch) @ [msg]
          \<and> length (buf (chans (world st) ch)) < cap (chans (world st) ch)"
      moreover have "subseq ((sent st @ buf (chans (world st) ch)) @ [msg]) (pre @ [msg])"
        using "2.prems"(2) by (intro list_emb_append_mono) simp_all
      ultimately show ?thesis by (simp add: st1_def)
    qed
  qed
  have p3: "length (buf (chans (world st1) ch)) \<le> cap (chans (world st1) ch)"
    using b "2.prems"(3) by (auto simp: st1_def)
  have run: "stream_loop sid ch st1 es = (out, st')"
    using "2.prems"(5) by (simp add: st1_def)
  from "2.IH" [folded st1_def, OF p1 p2 p3 od run]
  show ?case by (simp add: st1_def)
next
  case (3 sid ch st es)
  from "3.IH" [of pre] "3.prems" show ?case by simp
next
  case (4 sid ch st r0 es)
  show ?case
  proof (cases "buf (chans (world st) ch)")
    case Nil
    from "4.IH"(1) [OF Nil, of pre] "4.prems" Nil show ?thesis by simp
  next
    case (Cons msg q)
    define w where "w = (world st)\<lparr>chans := (chans (world st))(ch := (chans (world st) ch)\<lparr>buf := q\<rparr>)\<rparr>"
    have sq: "subseq (sent st @ q) pre"
    proof -
      have "subseq q (msg # q)" by (rule list_emb_Cons) simp
      then have "subseq (sent st @ q) (sent st @ msg # q)" by (simp add: subseq_append')
      then show ?thesis using "4.prems"(2) Cons subseq_order.trans by fastforce
    qed
    have lq: "length q \<le> cap (chans (world st) ch)" using "4.prems"(3) Cons by simp
    show ?thesis
    proof (cases r0)
      case None
      show ?thesis
      proof (cases "slog (SentMetrics sid) w")
        case N: None
        with "4.prems"(5) Cons None have "st' = st\<lparr>world := w, sent := sent st @ [msg]\<rparr>"
          by (simp add: w_def Let_def)
        with "4.prems"(2) Cons lq show ?thesis by (simp add: w_def subseq_rev_drop_many)
      next
        case (Some w')
        define st1 where "st1 = st\<lparr>world := w', sent := sent st @ [msg]\<rparr>"
        note f = slog_fields [OF Some]
        have p1: "\<forall>s. subscribers (world st1) s = Some ch \<longrightarrow> s = sid"
          using "4.prems"(1) f by (simp add: st1_def w_def)
        have p2: "subseq (sent st1 @ buf (chans (world st1) ch)) pre"
          using "4.prems"(2) Cons f by (simp add: st1_def w_def)
        have p3: "length (buf (chans (world st1) ch)) \<le> cap (chans (world st1) ch)"
          using lq f by (simp add: st1_def w_def)
        have od: "orders_distinct es" using "4.prems"(4) by simp
        have run: "stream_loop sid ch st1 es = (out, st')"
          using "4.prems"(5) Cons None Some by (simp add: st1_def w_def Let_def)
        from "4.IH"(2) [OF Cons w_def None Some, folded st1_def, OF p1 p2 p3 od run]
        show ?thesis using f by (simp add: st1_def w_def)
      qed
    next
      case (Some err)
      have "sent st' = sent st \<and> chans (world st') = chans w"
      proof (cases "slog (FailedToSend sid err) w")
        case None
        with "4.prems"(5) Cons Some show ?thesis by (auto simp: w_def Let_def)
      next
        case S: (Some w')
        with "4.prems"(5) Cons Some have "leave sid (Some err) (st\<lparr>world := w'\<rparr>) = (out, st')"
          by (simp add: w_def Let_def)
        from leave_result [OF this] slog_fields [OF S] show ?thesis by simp
      qed
      with sq lq show ?thesis by (simp add: w_def subseq_rev_drop_many)
    qed
  qed
next
  case (5 sid ch st es)
  show ?case
  proof (cases "cancelled st")
    case True
    have "sent st' = sent st \<and> chans (world st') = chans (world st)"
    proof (cases "slog (ContextCanceled sid) (world st)")
      case None
      with "5.prems"(5) True show ?thesis by auto
    next
      case S: (Some w')
      with "5.prems"(5) True have "leave sid None (st\<lparr>world := w'\<rparr>) = (out, st')" by simp
      from leave_result [OF this] slog_fields [OF S] show ?thesis by simp
    qed
    with "5.prems" show ?thesis by (simp add: subseq_rev_drop_many)
  next
    case False
    from "5.IH" [OF False, of pre] "5.prems" False show ?thesis by simp
  qed
qed

lemma entered_sole:
  assumes "allocated w"
  shows "\<forall>s. subscribers (world (entered w sid)) s = Some (nextc w) \<longrightarrow> s = sid"
proof (intro allI impI)
  fix s assume a: "subscribers (world (entered w sid)) s = Some (nextc w)"
  show "s = sid"
  proof (rule ccontr)
    assume "s \<noteq> sid"
    with a have "subscribers w s = Some (nextc w)" by (simp add: entered_def)
    then have "nextc w \<in> ran (subscribers w)" by (auto simp: ran_def)
    with assms show False by (auto simp: allocated_def)
  qed
qed

section \<open>The claims about the server\<close>

text \<open>
  Every theorem of this section about a call that runs is about a server with a
  logger: the handlers call \<^verbatim>\<open>s.logger\<close> unguarded, so a server built with a nil
  logger panics at the first line of either handler.
\<close>

text \<open>
  Claim C2. \<^verbatim>\<open>SubscribeMetrics\<close> makes the mailbox with capacity 100, empty, and
  registers it under its id before anything else happens. In a relay whose map holds
  only addresses already handed out, and in a run whose ranges visit no key twice,
  the mailbox keeps capacity 100 and never holds more than 100 samples, and the
  samples the subscriber has been sent followed by those still queued are a
  subsequence of the samples broadcast during the run, in the order of the
  \<^verbatim>\<open>Broadcast\<close> calls. So for two samples \<open>m1\<close> broadcast before \<open>m2\<close>, both delivered
  to the subscriber, \<open>m1\<close> is sent to it before \<open>m2\<close> and not after.
\<close>

theorem SubscribeMetrics_mailbox_fifo:
  assumes al: "allocated w" and od: "orders_distinct script"
    and run: "SubscribeMetrics w sid script = (out, st')"
  shows "cap (chans (world st') (nextc w)) = 100
       \<and> length (buf (chans (world st') (nextc w))) \<le> 100
       \<and> subseq (sent st' @ buf (chans (world st') (nextc w))) (broadcasts script)
       \<and> (distinct (broadcasts script) \<and> subseq [m1, m2] (broadcasts script)
            \<and> m1 \<in> set (sent st') \<and> m2 \<in> set (sent st') \<longrightarrow>
            subseq [m1, m2] (sent st') \<and> \<not> subseq [m2, m1] (sent st'))
       \<and> (logger w \<noteq> None \<longrightarrow>
            fst (SubscribeMetrics w sid []) = Pending
            \<and> subscribers (world (snd (SubscribeMetrics w sid []))) sid = Some (nextc w)
            \<and> chans (world (snd (SubscribeMetrics w sid []))) (nextc w) = \<lparr>cap = 100, buf = []\<rparr>)"
proof -
  have main: "cap (chans (world st') (nextc w)) = 100
      \<and> length (buf (chans (world st') (nextc w))) \<le> 100
      \<and> subseq (sent st' @ buf (chans (world st') (nextc w))) (broadcasts script)"
  proof (cases "logger w = None")
    case True
    with run have "st' = \<lparr>world = make_chan 100 w, cancelled = False, sent = []\<rparr>"
      by (auto simp: SubscribeMetrics_def slog_None)
    then show ?thesis by simp
  next
    case False
    from run have loop: "stream_loop sid (nextc w) (entered w sid) script = (out, st')"
      by (simp add: SubscribeMetrics_logger [OF False])
    have p2: "subseq (sent (entered w sid) @ buf (chans (world (entered w sid)) (nextc w))) []"
      by (simp add: entered_fields)
    have p3: "length (buf (chans (world (entered w sid)) (nextc w)))
        \<le> cap (chans (world (entered w sid)) (nextc w))"
      by (simp add: entered_fields)
    from stream_loop_fifo [OF entered_sole [OF al] p2 p3 od loop]
    show ?thesis by (simp add: entered_fields)
  qed
  have pair: "subseq [m1, m2] (sent st') \<and> \<not> subseq [m2, m1] (sent st')"
    if "distinct (broadcasts script) \<and> subseq [m1, m2] (broadcasts script)
        \<and> m1 \<in> set (sent st') \<and> m2 \<in> set (sent st')"
  proof -
    have "subseq (sent st') (sent st' @ buf (chans (world st') (nextc w)))"
      by (rule subseq_rev_drop_many) (rule subseq_order.refl)
    moreover have "subseq (sent st' @ buf (chans (world st') (nextc w))) (broadcasts script)"
      using main by simp
    ultimately have "subseq (sent st') (broadcasts script)"
      by (rule subseq_order.trans)
    with that show ?thesis by (intro subseq_pair_order [where ys = "broadcasts script"]) simp_all
  qed
  have start: "fst (SubscribeMetrics w sid []) = Pending
      \<and> subscribers (world (snd (SubscribeMetrics w sid []))) sid = Some (nextc w)
      \<and> chans (world (snd (SubscribeMetrics w sid []))) (nextc w) = \<lparr>cap = 100, buf = []\<rparr>"
    if "logger w \<noteq> None"
    by (simp add: SubscribeMetrics_logger [OF that] entered_fields)
  from main pair start show ?thesis by blast
qed

theorem SubscribeMetrics_mailbox_fifo_witness:
  "allocated fresh_server
   \<and> orders_distinct [Env_Broadcast [''s''] 1, Env_Broadcast [''s''] 2, Select_Recv None,
        Env_Broadcast [''s''] 3, Select_Recv None :: nat step]
   \<and> distinct (broadcasts [Env_Broadcast [''s''] 1, Env_Broadcast [''s''] 2, Select_Recv None,
        Env_Broadcast [''s''] 3, Select_Recv None :: nat step])
   \<and> subseq [1, 2] (broadcasts [Env_Broadcast [''s''] 1, Env_Broadcast [''s''] 2, Select_Recv None,
        Env_Broadcast [''s''] 3, Select_Recv None :: nat step])
   \<and> sent (snd (SubscribeMetrics fresh_server ''s'' [Env_Broadcast [''s''] 1, Env_Broadcast [''s''] 2,
        Select_Recv None, Env_Broadcast [''s''] 3, Select_Recv None])) = [1, 2]
   \<and> subseq [1, 2] (sent (snd (SubscribeMetrics fresh_server ''s'' [Env_Broadcast [''s''] 1,
        Env_Broadcast [''s''] 2, Select_Recv None, Env_Broadcast [''s''] 3, Select_Recv None])))
   \<and> \<not> subseq [2, 1] (sent (snd (SubscribeMetrics fresh_server ''s'' [Env_Broadcast [''s''] 1,
        Env_Broadcast [''s''] 2, Select_Recv None, Env_Broadcast [''s''] 3, Select_Recv None])))
   \<and> cap (chans (world (snd (SubscribeMetrics fresh_server ''s'' [Env_Broadcast [''s''] 1,
        Env_Broadcast [''s''] 2, Select_Recv None, Env_Broadcast [''s''] 3, Select_Recv None]))) 0) = 100"
proof -
  let ?run = "[Env_Broadcast [''s''] 1, Env_Broadcast [''s''] 2, Select_Recv None,
      Env_Broadcast [''s''] 3, Select_Recv None :: nat step]"
  let ?res = "SubscribeMetrics fresh_server ''s'' ?run"
  have od: "orders_distinct ?run" by simp
  have db: "distinct (broadcasts ?run)" "subseq [1, 2] (broadcasts ?run)" by simp_all
  have r: "?res = (fst ?res, snd ?res)" by simp
  have se: "sent (snd ?res) = [1, 2]"
    by (simp add: loop_defs run_defs)
  note t = SubscribeMetrics_mailbox_fifo [OF fresh_server_facts(1) od r, of 1 2]
  have c: "cap (chans (world (snd ?res)) 0) = 100"
    using t [THEN conjunct1] by (simp add: fresh_server_facts)
  have o: "subseq [1, 2] (sent (snd ?res)) \<and> \<not> subseq [2, 1] (sent (snd ?res))"
    using t [THEN conjunct2, THEN conjunct2, THEN conjunct2, THEN conjunct1] db se by simp
  show ?thesis
    using fresh_server_facts(1) od db se o [THEN conjunct1] o [THEN conjunct2] c
    by (intro conjI)
qed



text \<open>
  Claim C4, as the code has it. For a server with a logger and an inbound stream that
  yields the samples \<open>reqs\<close> and then \<^verbatim>\<open>io.EOF\<close>, \<^verbatim>\<open>SendMetrics\<close> leaves the relay
  as one \<^verbatim>\<open>Broadcast\<close> call per sample leaves it, in the order of receipt, calls
  \<^verbatim>\<open>SendAndClose\<close> exactly once and returns what that call returns: nil when the
  acknowledgment was sent, the error when sending it failed. When instead a read fails
  with another error, it returns that error and does not call \<^verbatim>\<open>SendAndClose\<close>. A
  subscriber with a mailbox of its own and room for all the samples has them queued
  in the order of receipt.
\<close>

theorem SendMetrics_forwards_then_acks:
  assumes "logger w \<noteq> None"
  shows "SendMetrics rt ack w (map Inr reqs @ Inl EOF # rest)
           = (Return ack, blog AgentStreamClosed (broadcast_each rt 0 (blog StartedReceiving w) reqs), 1)
       \<and> (err \<noteq> EOF \<longrightarrow>
            SendMetrics rt ack w (map Inr reqs @ Inl err # rest)
              = (Return (Some err),
                 blog (FailedToReceive err) (broadcast_each rt 0 (blog StartedReceiving w) reqs), 0))
       \<and> ((\<forall>k. range_order w (rt k)) \<and> own_mailboxes w \<and> subscribers w sid = Some ch
            \<and> length (buf (chans w ch)) + length reqs \<le> cap (chans w ch) \<longrightarrow>
            chans (broadcast_each rt 0 (blog StartedReceiving w) reqs) ch
              = (chans w ch)\<lparr>buf := buf (chans w ch) @ reqs\<rparr>)"
proof (intro conjI impI)
  show "SendMetrics rt ack w (map Inr reqs @ Inl EOF # rest)
      = (Return ack, blog AgentStreamClosed (broadcast_each rt 0 (blog StartedReceiving w) reqs), 1)"
    using assms by (rule SendMetrics_clean)
next
  assume "err \<noteq> EOF"
  with assms show "SendMetrics rt ack w (map Inr reqs @ Inl err # rest)
      = (Return (Some err),
         blog (FailedToReceive err) (broadcast_each rt 0 (blog StartedReceiving w) reqs), 0)"
    by (rule SendMetrics_failed)
next
  assume a: "(\<forall>k. range_order w (rt k)) \<and> own_mailboxes w \<and> subscribers w sid = Some ch
      \<and> length (buf (chans w ch)) + length reqs \<le> cap (chans w ch)"
  define w0 where "w0 = blog StartedReceiving w"
  have "chans (broadcast_each rt 0 w0 reqs) ch = (chans w0 ch)\<lparr>buf := buf (chans w0 ch) @ reqs\<rparr>"
    using a by (intro broadcast_each_delivers [where sid = sid]) (simp_all add: w0_def)
  then show "chans (broadcast_each rt 0 (blog StartedReceiving w) reqs) ch
      = (chans w ch)\<lparr>buf := buf (chans w ch) @ reqs\<rparr>"
    by (simp add: w0_def)
qed

theorem SendMetrics_forwards_then_acks_witness:
  "logger one_listener \<noteq> None
   \<and> fst (SendMetrics (\<lambda>_. [''a'']) None one_listener (map Inr [1, 2, 3, 4, 5] @ [Inl EOF])) = Return None
   \<and> snd (snd (SendMetrics (\<lambda>_. [''a'']) None one_listener (map Inr [1, 2, 3, 4, 5] @ [Inl EOF]))) = 1
   \<and> buf (chans (fst (snd (SendMetrics (\<lambda>_. [''a'']) None one_listener (map Inr [1, 2, 3, 4, 5] @ [Inl EOF])))) 0)
       = [1, 2, 3, 4, 5]
   \<and> TransportError ''reset'' \<noteq> EOF
   \<and> fst (SendMetrics (\<lambda>_. [''a'']) None one_listener (map Inr [1, 2] @ [Inl (TransportError ''reset'')]))
       = Return (Some (TransportError ''reset''))
   \<and> snd (snd (SendMetrics (\<lambda>_. [''a'']) None one_listener (map Inr [1, 2] @ [Inl (TransportError ''reset'')]))) = 0"
proof -
  note five = SendMetrics_forwards_then_acks [OF one_listener_facts(1),
      where rt = "\<lambda>_. [''a'']" and ack = None and reqs = "[1, 2, 3, 4, 5]" and rest = "[]"
        and sid = "''a''" and ch = 0 and err = EOF]
  note two = SendMetrics_forwards_then_acks [OF one_listener_facts(1),
      where rt = "\<lambda>_. [''a'']" and ack = None and reqs = "[1, 2]" and rest = "[]"
        and sid = "''a''" and ch = 0 and err = "TransportError ''reset''"]
  show ?thesis
    using five two by (simp add: one_listener_facts)
qed

text \<open>
  Claim C4 as stated fails where the acknowledgment cannot be sent: the stream yields
  two samples and a clean end-of-stream, \<^verbatim>\<open>SendAndClose\<close> fails, and \<^verbatim>\<open>SendMetrics\<close>
  returns that error, not success.
\<close>

theorem SendMetrics_ack_failure:
  "fst (SendMetrics (\<lambda>_. [''a'']) (Some (TransportError ''broken pipe'')) one_listener [Inr 1, Inr 2, Inl EOF])
     = Return (Some (TransportError ''broken pipe''))
   \<and> fst (SendMetrics (\<lambda>_. [''a'']) (Some (TransportError ''broken pipe'')) one_listener [Inr 1, Inr 2, Inl EOF])
     \<noteq> Return None"
  by (simp add: SendMetrics_def slog_def one_listener_def NewMetricsServer_def run_defs)

text \<open>
  Claim C8. From any state in which the loop of \<^verbatim>\<open>SubscribeMetrics\<close> is waiting, an
  exit event ends the call with the value that event asks for, and the id is no longer
  in the map: the error of the failed send for a dequeued sample, success for an
  observed cancellation. And a call that has returned did so at such an event, with
  the value of that event.
\<close>

theorem SubscribeMetrics_outcome:
  "(SubscribeMetrics w sid pre = (Pending, st) \<and> exit_event (nextc w) st ev = Some r \<longrightarrow>
      fst (SubscribeMetrics w sid (pre @ ev # post)) = Return r
      \<and> subscribers (world (snd (SubscribeMetrics w sid (pre @ ev # post)))) sid = None)
   \<and> (SubscribeMetrics w sid script = (Return r', st') \<longrightarrow>
      (\<exists>pre ev post st1. script = pre @ ev # post \<and> SubscribeMetrics w sid pre = (Pending, st1)
         \<and> exit_event (nextc w) st1 ev = Some r'))"
proof (cases "logger w = None")
  case True
  from SubscribeMetrics_no_logger [OF True, of sid pre]
    SubscribeMetrics_no_logger [OF True, of sid script]
  show ?thesis by auto
next
  case False
  note run = SubscribeMetrics_logger [OF False]
  show ?thesis
  proof (rule conjI; rule impI)
    assume a: "SubscribeMetrics w sid pre = (Pending, st) \<and> exit_event (nextc w) st ev = Some r"
    then have p: "stream_loop sid (nextc w) (entered w sid) pre = (Pending, st)"
      and e: "exit_event (nextc w) st ev = Some r" by (simp_all add: run)
    from stream_loop_Pending [OF p] False have l: "logger (world st) \<noteq> None"
      by (simp add: entered_fields)
    from stream_loop_exit_step [OF l e, of sid post]
    obtain st2 where s2: "stream_loop sid (nextc w) st (ev # post) = (Return r, st2)" by blast
    have whole: "SubscribeMetrics w sid (pre @ ev # post) = (Return r, st2)"
      by (simp add: run stream_loop_append p s2)
    from stream_loop_Return [OF s2] whole
    show "fst (SubscribeMetrics w sid (pre @ ev # post)) = Return r
        \<and> subscribers (world (snd (SubscribeMetrics w sid (pre @ ev # post)))) sid = None"
      by simp
  next
    assume a: "SubscribeMetrics w sid script = (Return r', st')"
    from stream_loop_exit_event [OF a [unfolded run]]
    show "\<exists>pre ev post st1. script = pre @ ev # post \<and> SubscribeMetrics w sid pre = (Pending, st1)
         \<and> exit_event (nextc w) st1 ev = Some r'"
      by (simp add: run)
  qed
qed

theorem SubscribeMetrics_outcome_witness:
  "SubscribeMetrics fresh_server ''s'' [Env_Broadcast [''s''] 1]
     = (Pending, snd (SubscribeMetrics fresh_server ''s'' [Env_Broadcast [''s''] 1]))
   \<and> exit_event 0 (snd (SubscribeMetrics fresh_server ''s'' [Env_Broadcast [''s''] 1]))
        (Select_Recv (Some (TransportError ''gone''))) = Some (Some (TransportError ''gone''))
   \<and> fst (SubscribeMetrics fresh_server ''s''
        ([Env_Broadcast [''s''] 1] @ Select_Recv (Some (TransportError ''gone'')) # [Select_Done]))
       = Return (Some (TransportError ''gone''))
   \<and> SubscribeMetrics fresh_server ''s'' [Ctx_Cancel]
     = (Pending, snd (SubscribeMetrics fresh_server ''s'' [Ctx_Cancel]))
   \<and> exit_event 0 (snd (SubscribeMetrics fresh_server ''s'' [Ctx_Cancel])) Select_Done = Some None
   \<and> fst (SubscribeMetrics fresh_server ''s'' ([Ctx_Cancel] @ Select_Done # [])) = Return None
   \<and> subscribers (world (snd (SubscribeMetrics fresh_server ''s'' ([Ctx_Cancel] @ Select_Done # [])))) ''s''
       = None"
proof -
  let ?a = "SubscribeMetrics fresh_server ''s'' [Env_Broadcast [''s''] 1]"
  let ?b = "SubscribeMetrics fresh_server ''s'' [Ctx_Cancel]"
  have pa: "?a = (Pending, snd ?a)" by (simp add: loop_defs run_defs)
  have pb: "?b = (Pending, snd ?b)" by (simp add: loop_defs run_defs)
  have ea: "exit_event 0 (snd ?a) (Select_Recv (Some (TransportError ''gone'')))
      = Some (Some (TransportError ''gone''))"
    by (simp add: loop_defs run_defs)
  have eb: "exit_event 0 (snd ?b) Select_Done = Some None"
    by (simp add: loop_defs run_defs)
  note ta = SubscribeMetrics_outcome [where w = fresh_server and sid = "''s''"
      and pre = "[Env_Broadcast [''s''] 1]" and st = "snd ?a"
      and ev = "Select_Recv (Some (TransportError ''gone''))" and r = "Some (TransportError ''gone'')"
      and post = "[Select_Done]", THEN conjunct1, rule_format, unfolded fresh_server_facts(3),
      OF conjI [OF pa ea]]
  note tb = SubscribeMetrics_outcome [where w = fresh_server and sid = "''s''"
      and pre = "[Ctx_Cancel]" and st = "snd ?b" and ev = Select_Done and r = None
      and post = "[]", THEN conjunct1, rule_format, unfolded fresh_server_facts(3),
      OF conjI [OF pb eb]]
  show ?thesis
    using pa ea ta [THEN conjunct1] pb eb tb [THEN conjunct1] tb [THEN conjunct2]
    by (intro conjI)
qed

text \<open>
  Claim C10. On a clean end-of-stream \<^verbatim>\<open>SendMetrics\<close> returns what
  \<^verbatim>\<open>stream.SendAndClose\<close> returned, after exactly one call of it: when sending the
  acknowledgment fails with an error, that error is the result.
\<close>

theorem SendMetrics_returns_ack_result:
  assumes "logger w \<noteq> None"
  shows "fst (SendMetrics rt ack w (map Inr reqs @ Inl EOF # rest)) = Return ack
       \<and> snd (snd (SendMetrics rt ack w (map Inr reqs @ Inl EOF # rest))) = 1"
  by (simp add: SendMetrics_clean [OF assms])

theorem SendMetrics_returns_ack_result_witness:
  "logger one_listener \<noteq> None
   \<and> fst (SendMetrics (\<lambda>_. [''a'']) (Some (TransportError ''unavailable'')) one_listener (map Inr [7] @ [Inl EOF]))
       = Return (Some (TransportError ''unavailable''))
   \<and> snd (snd (SendMetrics (\<lambda>_. [''a'']) (Some (TransportError ''unavailable'')) one_listener (map Inr [7] @ [Inl EOF]))) = 1"
proof -
  note t = SendMetrics_returns_ack_result [OF one_listener_facts(1),
      where rt = "\<lambda>_. [''a'']" and ack = "Some (TransportError ''unavailable'')" and reqs = "[7]" and rest = "[]"]
  show ?thesis
    using one_listener_facts(1) t [THEN conjunct1] t [THEN conjunct2] by (intro conjI)
qed

end
